theory Spec2Isabelle
  imports Main "HOL-Library.Sublist" "HOL-Library.Product_Lexorder"
begin

section \<open>Text primitives of the Python source\<close>

text \<open>
  A Python \<open>str\<close> is a sequence of code points. The model covers texts whose code
  points are below 256: one \<open>char\<close> is one code point (Latin-1). On that range
  \<open>str.lower\<close> acts on each code point alone, and the whitespace of \<open>str.split\<close>,
  \<open>str.strip\<close> and the regular expression class \<open>\S\<close> is one and the same set.
\<close>

definition is_upper_cp :: "char \<Rightarrow> bool" where
  "is_upper_cp c =
     (let n = (of_char c :: nat)
      in (65 \<le> n \<and> n \<le> 90) \<or> (192 \<le> n \<and> n \<le> 222 \<and> n \<noteq> 215))"

definition lower_char :: "char \<Rightarrow> char" where
  "lower_char c = (if is_upper_cp c then char_of ((of_char c :: nat) + 32) else c)"

definition str_lower :: "string \<Rightarrow> string" where
  "str_lower s = map lower_char s"

definition is_space :: "char \<Rightarrow> bool" where
  "is_space c =
     (let n = (of_char c :: nat)
      in (9 \<le> n \<and> n \<le> 13) \<or> (28 \<le> n \<and> n \<le> 32) \<or> n = 133 \<or> n = 160)"

text \<open>Python's \<open>pat in text\<close> on strings: \<open>pat\<close> occurs as a contiguous substring.\<close>

fun str_in :: "string \<Rightarrow> string \<Rightarrow> bool" where
  "str_in pat [] = (pat = [])"
| "str_in pat (c # cs) = (prefix pat (c # cs) \<or> str_in pat cs)"

section \<open>Risk scorer\<close>

definition phishing_keywords :: "string list" where
  "phishing_keywords =
     [''password'', ''verify'', ''account'', ''login'', ''click'', ''reset'', ''urgent'']"

text \<open>The \<open>for word in phishing_keywords\<close> loop, threading \<open>(score, reasons)\<close>.\<close>

fun keyword_loop :: "string \<Rightarrow> string list \<Rightarrow> int \<times> string list \<Rightarrow> int \<times> string list" where
  "keyword_loop text [] st = st"
| "keyword_loop text (word # ws) (score, reasons) =
     (if str_in word text
      then keyword_loop text ws (score + 15, reasons @ [''Contains keyword: '' @ word])
      else keyword_loop text ws (score, reasons))"

definition simple_heuristic_score :: "string \<Rightarrow> string \<Rightarrow> int \<times> string list" where
  "simple_heuristic_score subject body =
     (let text = str_lower (subject @ '' '' @ body);
          (score, reasons) = keyword_loop text phishing_keywords (10, []);
          (score, reasons) =
            (if str_in ''http://'' text \<or> str_in ''https://'' text
             then (score + 20, reasons @ [''Contains a link''])
             else (score, reasons));
          (score, reasons) =
            (if str_in ''bank'' text \<or> str_in ''paypal'' text \<or> str_in ''crypto'' text
             then (score + 15, reasons @ [''Mentions financial service or money''])
             else (score, reasons));
          score = (if score > 100 then 100 else score)
      in (score, reasons))"

definition score_to_verdict :: "int \<Rightarrow> string" where
  "score_to_verdict score =
     (if score \<le> 30 then ''SAFE''
      else if score \<le> 69 then ''SUSPICIOUS''
      else ''PHISHING'')"

section \<open>Header inspector\<close>

record HeaderAnalysis =
  spf_pass :: "bool option"
  dkim_pass :: "bool option"
  dmarc_pass :: "bool option"
  from_domain :: "string option"
  return_path_domain :: "string option"
  reply_to_domain :: "string option"
  suspicious_flags :: "string list"

text \<open>\<open>not raw_headers\<close> holds for \<open>None\<close> and for the empty string.\<close>

definition falsy :: "string option \<Rightarrow> bool" where
  "falsy raw_headers = (case raw_headers of None \<Rightarrow> True | Some h \<Rightarrow> h = [])"

definition fake_header_analysis :: "string option \<Rightarrow> HeaderAnalysis" where
  "fake_header_analysis raw_headers =
     (if falsy raw_headers
      then \<lparr> spf_pass = None, dkim_pass = None, dmarc_pass = None,
             from_domain = None, return_path_domain = None, reply_to_domain = None,
             suspicious_flags = [''No headers provided''] \<rparr>
      else
        (let lower = str_lower (case raw_headers of Some h \<Rightarrow> h | None \<Rightarrow> []);
             flags = [];
             flags = (if str_in ''spf=fail'' lower
                      then flags @ [''SPF fail found in Authentication-Results''] else flags);
             flags = (if str_in ''dkim=fail'' lower
                      then flags @ [''DKIM fail found in Authentication-Results''] else flags);
             flags = (if str_in ''dmarc=fail'' lower
                      then flags @ [''DMARC fail found in Authentication-Results''] else flags)
         in \<lparr> spf_pass = Some (str_in ''spf=pass'' lower),
               dkim_pass = Some (str_in ''dkim=pass'' lower),
               dmarc_pass = Some (str_in ''dmarc=pass'' lower),
               from_domain = None, return_path_domain = None, reply_to_domain = None,
               suspicious_flags = flags \<rparr>))"

section \<open>Regular expressions of the rewrite\<close>

text \<open>
  The patterns of \<open>rewrite_to_safe\<close> use literals, \<open>.\<close>, \<open>\S\<close>, the greedy
  repetitions \<open>*\<close>, \<open>+\<close> and \<open>?\<close> of one character class, sequence and
  alternation. \<open>ends ic r s\<close> lists, in the order the backtracking matcher of
  \<open>re\<close> tries them, what is left of \<open>s\<close> after each way \<open>r\<close> can match at the
  start of \<open>s\<close>; the match \<open>re\<close> reports is the first. \<open>ic\<close> is the
  \<open>IGNORECASE\<close> flag.
\<close>

datatype cls = Lit char | Dot | NonSpace

datatype rx = Eps | One cls | Star cls | Plus cls | Opt cls | Seq rx rx | Alt rx rx

fun cls_ok :: "bool \<Rightarrow> cls \<Rightarrow> char \<Rightarrow> bool" where
  "cls_ok ic (Lit p) c = (if ic then lower_char c = lower_char p else c = p)"
| "cls_ok ic Dot c = (c \<noteq> CHR 0x0A)"
| "cls_ok ic NonSpace c = (\<not> is_space c)"

fun star_ends :: "(char \<Rightarrow> bool) \<Rightarrow> string \<Rightarrow> string list" where
  "star_ends P [] = [[]]"
| "star_ends P (c # cs) = (if P c then star_ends P cs @ [c # cs] else [c # cs])"

fun ends :: "bool \<Rightarrow> rx \<Rightarrow> string \<Rightarrow> string list" where
  "ends ic Eps s = [s]"
| "ends ic (One k) s = (case s of [] \<Rightarrow> [] | c # cs \<Rightarrow> if cls_ok ic k c then [cs] else [])"
| "ends ic (Star k) s = star_ends (cls_ok ic k) s"
| "ends ic (Plus k) s =
     (case s of [] \<Rightarrow> [] | c # cs \<Rightarrow> if cls_ok ic k c then star_ends (cls_ok ic k) cs else [])"
| "ends ic (Opt k) s =
     (case s of [] \<Rightarrow> [[]] | c # cs \<Rightarrow> if cls_ok ic k c then [cs, c # cs] else [c # cs])"
| "ends ic (Seq a b) s = concat (map (ends ic b) (ends ic a s))"
| "ends ic (Alt a b) s = ends ic a s @ ends ic b s"

text \<open>A pattern that is plain text.\<close>

fun lit :: "string \<Rightarrow> rx" where
  "lit [] = Eps"
| "lit [c] = One (Lit c)"
| "lit (c # cs) = Seq (One (Lit c)) (lit cs)"

text \<open>
  \<open>re.sub\<close>: scan from the left; where the pattern matches, emit the replacement and
  go on after the match, otherwise copy one character. No pattern of the source matches
  the empty string; for an empty match the replacement is emitted and one character
  copied.
\<close>

function re_sub :: "bool \<Rightarrow> rx \<Rightarrow> string \<Rightarrow> string \<Rightarrow> string" where
  "re_sub ic r repl s =
     (case ends ic r s of
        [] \<Rightarrow> (case s of [] \<Rightarrow> [] | c # cs \<Rightarrow> c # re_sub ic r repl cs)
      | rest # _ \<Rightarrow>
          if length rest < length s then repl @ re_sub ic r repl rest
          else repl @ (case s of [] \<Rightarrow> [] | c # cs \<Rightarrow> c # re_sub ic r repl cs))"
  by pat_completeness auto
termination
  by (relation "measure (\<lambda>(ic, r, repl, s). length s)") auto

text \<open>\<open>re.search(...) is not None\<close>: the pattern matches at some position.\<close>

fun re_search :: "bool \<Rightarrow> rx \<Rightarrow> string \<Rightarrow> bool" where
  "re_search ic r [] = (ends ic r [] \<noteq> [])"
| "re_search ic r (c # cs) = (ends ic r (c # cs) \<noteq> [] \<or> re_search ic r cs)"

section \<open>Rewrite\<close>

definition subject_replacements :: "(string \<times> string) list" where
  "subject_replacements =
     [(''suspended'', ''updated''), (''suspension'', ''update''), (''urgent'', ''important''),
      (''immediately'', ''''), (''immediate'', '''')]"

definition any_text :: rx where
  "any_text = Star Dot"

definition patterns_to_remove :: "rx list" where
  "patterns_to_remove =
     [Seq (lit ''click'') (Seq any_text (Seq (lit ''link'') (Seq any_text
        (Alt (lit ''login'') (Alt (lit ''log in'') (Alt (lit ''verify'') (lit ''reset''))))))),
      Seq (lit ''enter'') (Seq any_text (lit ''password'')),
      Seq (lit ''provide'') (Seq any_text (lit ''credentials''))]"

definition url_pattern :: rx where
  "url_pattern = Seq (lit ''http'') (Seq (Opt (Lit CHR ''s'')) (Seq (lit ''://'') (Plus NonSpace)))"

definition body_replacements :: "(string \<times> string) list" where
  "body_replacements =
     [(''will be closed'', ''may require your attention''),
      (''will be disabled'', ''may be temporarily limited''),
      (''within 24 hours'', ''in the near future''),
      (''immediately'', ''soon''),
      (''urgent'', ''important'')]"

definition str_strip :: "string \<Rightarrow> string" where
  "str_strip s = rev (dropWhile is_space (rev (dropWhile is_space s)))"

text \<open>The loops \<open>for bad, good in ....items()\<close>: each rule rewrites the current text.\<close>

fun replace_all :: "(string \<times> string) list \<Rightarrow> string \<Rightarrow> string" where
  "replace_all [] s = s"
| "replace_all ((bad, good) # rs) s = replace_all rs (re_sub True (lit bad) good s)"

fun remove_all :: "rx list \<Rightarrow> string \<Rightarrow> string" where
  "remove_all [] s = s"
| "remove_all (pat # ps) s = remove_all ps (re_sub True pat ''[removed sensitive instructions]'' s)"

text \<open>The body after the three rewriting steps, before the closing is considered.\<close>

definition softened_body :: "string \<Rightarrow> string" where
  "softened_body body =
     (let safe_body = remove_all patterns_to_remove body;
          safe_body = re_sub False url_pattern ''[link removed]'' safe_body
      in replace_all body_replacements safe_body)"

definition closing :: string where
  "closing = [CHR 0x0A, CHR 0x0A] @ ''Thank you,'' @ [CHR 0x0A] @ ''Customer Support Team''"

definition rewrite_to_safe :: "string \<Rightarrow> string \<Rightarrow> string \<times> string" where
  "rewrite_to_safe subject body =
     (let safe_subject = replace_all subject_replacements subject;
          safe_body = softened_body body;
          safe_body = (if \<not> str_in ''thank you'' (str_lower safe_body)
                       then str_strip safe_body @ closing else safe_body)
      in (safe_subject, safe_body))"

section \<open>The risk scorer as the specification words it\<close>

text \<open>
  The score as a closed formula: 10, plus 15 for each keyword of the ordered keyword
  list that occurs in the normalised text, plus 20 once for a link, plus 15 once for a
  financial term, clamped at 100; the reasons in keyword order, then link, then
  financial.
\<close>

definition norm_text :: "string \<Rightarrow> string \<Rightarrow> string" where
  "norm_text subject body = str_lower (subject @ '' '' @ body)"

definition link_rule :: "string \<Rightarrow> bool" where
  "link_rule text = (str_in ''http://'' text \<or> str_in ''https://'' text)"

definition financial_rule :: "string \<Rightarrow> bool" where
  "financial_rule text =
     (str_in ''bank'' text \<or> str_in ''paypal'' text \<or> str_in ''crypto'' text)"

definition matched_keywords :: "string \<Rightarrow> string list" where
  "matched_keywords text = filter (\<lambda>w. str_in w text) phishing_keywords"

definition spec_score :: "string \<Rightarrow> string \<Rightarrow> int" where
  "spec_score subject body =
     (let text = norm_text subject body
      in min 100 (10 + 15 * int (length (matched_keywords text))
                  + (if link_rule text then 20 else 0)
                  + (if financial_rule text then 15 else 0)))"

definition spec_reasons :: "string \<Rightarrow> string \<Rightarrow> string list" where
  "spec_reasons subject body =
     (let text = norm_text subject body
      in map (\<lambda>w. ''Contains keyword: '' @ w) (matched_keywords text)
         @ (if link_rule text then [''Contains a link''] else [])
         @ (if financial_rule text then [''Mentions financial service or money''] else []))"

section \<open>A scanner for links\<close>

text \<open>
  \<open>url_at s\<close>: the link pattern \<open>https?://\S+\<close> matches at the start of \<open>s\<close>.
  To follow links through the steps of the rewrite, a text is read from left to right
  with the part of \<open>http://\<close> or \<open>https://\<close> read so far as state; the state
  \<open>None\<close> says that a link has been read.
\<close>

definition url_at :: "string \<Rightarrow> bool" where
  "url_at s = (\<exists>c t. \<not> is_space c \<and> (s = ''http://'' @ c # t \<or> s = ''https://'' @ c # t))"

definition full :: "string \<Rightarrow> bool" where
  "full p = (p = ''http://'' \<or> p = ''https://'')"

definition pending :: "string \<Rightarrow> bool" where
  "pending p \<longleftrightarrow>
     p = [] \<or> p = ''h'' \<or> p = ''ht'' \<or> p = ''htt'' \<or> p = ''http'' \<or> p = ''http:''
     \<or> p = ''http:/'' \<or> p = ''http://'' \<or> p = ''https'' \<or> p = ''https:''
     \<or> p = ''https:/'' \<or> p = ''https://''"

fun step :: "string option \<Rightarrow> char \<Rightarrow> string option" where
  "step None c = None"
| "step (Some p) c =
     (if full p \<and> \<not> is_space c then None
      else if pending (p @ [c]) then Some (p @ [c])
      else if c = CHR ''h'' then Some ''h'' else Some [])"

definition run :: "string option \<Rightarrow> string \<Rightarrow> string option" where
  "run q s = foldl step q s"

section \<open>Spans of sensitive instructions\<close>

text \<open>
  The three removal patterns have one shape: anchor words, each one of a few
  alternatives, in a fixed order, with \<open>.*\<close> between them. \<open>span_rx\<close> builds the
  pattern of a list of anchors; the patterns of the source are the patterns of
  \<open>click_anchors\<close>, \<open>enter_anchors\<close> and \<open>provide_anchors\<close>.
\<close>

fun alt_rx :: "string list \<Rightarrow> rx" where
  "alt_rx [] = Eps"
| "alt_rx [a] = lit a"
| "alt_rx (a # as) = Alt (lit a) (alt_rx as)"

fun span_rx :: "string list list \<Rightarrow> rx" where
  "span_rx [] = Eps"
| "span_rx [alts] = alt_rx alts"
| "span_rx (alts # later) = Seq (alt_rx alts) (Seq any_text (span_rx later))"

definition click_anchors :: "string list list" where
  "click_anchors = [[''click''], [''link''], [''login'', ''log in'', ''verify'', ''reset'']]"

definition enter_anchors :: "string list list" where
  "enter_anchors = [[''enter''], [''password'']]"

definition provide_anchors :: "string list list" where
  "provide_anchors = [[''provide''], [''credentials'']]"

text \<open>
  In words: \<open>ci_prefix a s\<close>, the text \<open>s\<close> starts with the word \<open>a\<close> in any
  letter case. \<open>in_order anchors s\<close>: \<open>s\<close> contains the anchors in their order, with any
  text between them. \<open>follows anchors s\<close>: the anchors come in their order, each after
  text without a line feed; \<open>starts anchors s\<close>: \<open>s\<close> starts with the first anchor and
  the others follow so; \<open>has_line_span anchors s\<close>: such a span starts somewhere in
  \<open>s\<close>.
\<close>

definition ci_prefix :: "string \<Rightarrow> string \<Rightarrow> bool" where
  "ci_prefix a s = prefix (str_lower a) (str_lower s)"

fun in_order :: "string list list \<Rightarrow> string \<Rightarrow> bool" where
  "in_order [] s = True"
| "in_order (alts # later) [] = False"
| "in_order (alts # later) (c # cs) =
     ((\<exists>a \<in> set alts. ci_prefix a (c # cs) \<and> in_order later (drop (length a) (c # cs)))
      \<or> in_order (alts # later) cs)"

fun follows :: "string list list \<Rightarrow> string \<Rightarrow> bool" where
  "follows [] s = True"
| "follows (alts # later) [] = False"
| "follows (alts # later) (c # cs) =
     ((\<exists>a \<in> set alts. ci_prefix a (c # cs) \<and> follows later (drop (length a) (c # cs)))
      \<or> (c \<noteq> CHR 0x0A \<and> follows (alts # later) cs))"

definition starts :: "string list list \<Rightarrow> string \<Rightarrow> bool" where
  "starts anchors s =
     (case anchors of [] \<Rightarrow> True
      | alts # later \<Rightarrow> \<exists>a \<in> set alts. ci_prefix a s \<and> follows later (drop (length a) s))"

fun has_line_span :: "string list list \<Rightarrow> string \<Rightarrow> bool" where
  "has_line_span anchors [] = starts anchors []"
| "has_line_span anchors (c # cs) = (starts anchors (c # cs) \<or> has_line_span anchors cs)"

text \<open>
  What one pass of \<open>re.sub\<close> with the marker does to a text, as a relation: a
  character where the pattern \<open>P\<close> does not match is copied, and a match, which holds
  no line feed, gives way to the marker.
\<close>

definition marker :: string where
  "marker = ''[removed sensitive instructions]''"

inductive rep :: "(string \<Rightarrow> bool) \<Rightarrow> string \<Rightarrow> string \<Rightarrow> bool" for P where
  rep_Nil: "rep P [] []"
| rep_copy: "\<not> P (c # s) \<Longrightarrow> rep P s t \<Longrightarrow> rep P (c # s) (c # t)"
| rep_mark: "P (x @ s) \<Longrightarrow> CHR 0x0A \<notin> set x \<Longrightarrow> rep P s t \<Longrightarrow> rep P (x @ s) (marker @ t)"

text \<open>Side conditions on anchors and patterns that the three patterns of the source meet.\<close>

fun nl_free :: "rx \<Rightarrow> bool" where
  "nl_free Eps = True"
| "nl_free (One k) = (\<not> cls_ok True k (CHR 0x0A))"
| "nl_free (Star k) = (\<not> cls_ok True k (CHR 0x0A))"
| "nl_free (Plus k) = (\<not> cls_ok True k (CHR 0x0A))"
| "nl_free (Opt k) = (\<not> cls_ok True k (CHR 0x0A))"
| "nl_free (Seq a b) = (nl_free a \<and> nl_free b)"
| "nl_free (Alt a b) = (nl_free a \<and> nl_free b)"

definition good_anchors :: "string list list \<Rightarrow> bool" where
  "good_anchors anchors \<longleftrightarrow> anchors \<noteq> [] \<and> (\<forall>alts \<in> set anchors. alts \<noteq> [] \<and> (\<forall>a \<in> set alts. a \<noteq> []))"

definition plain_word :: "string \<Rightarrow> bool" where
  "plain_word a \<longleftrightarrow>
     a \<noteq> [] \<and> CHR ''['' \<notin> set (str_lower a) \<and> CHR '']'' \<notin> set (str_lower a)
     \<and> \<not> str_in (str_lower a) marker"

definition plain_anchors :: "string list list \<Rightarrow> bool" where
  "plain_anchors anchors \<longleftrightarrow>
     anchors \<noteq> [] \<and> (\<forall>alts \<in> set anchors. alts \<noteq> [] \<and> (\<forall>a \<in> set alts. plain_word a))"

definition span_pattern :: "string list list \<Rightarrow> bool" where
  "span_pattern anchors \<longleftrightarrow>
     plain_anchors anchors \<and> nl_free (span_rx anchors)
     \<and> (\<exists>c w r. span_rx anchors = Seq (lit (c # w)) r)"

section \<open>Properties of the scorer, the verdict and the header inspector\<close>

lemma keyword_loop_eq:
  "keyword_loop text ws (score, reasons) =
     (score + 15 * int (length (filter (\<lambda>w. str_in w text) ws)),
      reasons @ map (\<lambda>w. ''Contains keyword: '' @ w) (filter (\<lambda>w. str_in w text) ws))"
  by (induction ws arbitrary: score reasons) auto

lemma simple_heuristic_score_eq:
  "simple_heuristic_score subject body = (spec_score subject body, spec_reasons subject body)"
  by (simp add: simple_heuristic_score_def spec_score_def spec_reasons_def norm_text_def
      link_rule_def financial_rule_def matched_keywords_def keyword_loop_eq Let_def min_def)

lemma keyword_reason_in_reasons:
  "''Contains keyword: '' @ w \<in> set (spec_reasons subject body)
     \<longleftrightarrow> w \<in> set (matched_keywords (norm_text subject body))"
  by (auto simp: spec_reasons_def Let_def)

lemma link_reason_in_reasons:
  "''Contains a link'' \<in> set (spec_reasons subject body) \<longleftrightarrow> link_rule (norm_text subject body)"
  by (auto simp: spec_reasons_def Let_def)

lemma financial_reason_in_reasons:
  "''Mentions financial service or money'' \<in> set (spec_reasons subject body)
     \<longleftrightarrow> financial_rule (norm_text subject body)"
  by (auto simp: spec_reasons_def Let_def)

lemma distinct_phishing_keywords: "distinct phishing_keywords"
  by (simp add: phishing_keywords_def)

lemma distinct_matched_keywords: "distinct (matched_keywords text)"
  unfolding matched_keywords_def by (rule distinct_filter) (rule distinct_phishing_keywords)

lemma matched_keywords_mono:
  assumes "set (spec_reasons s1 b1) \<subseteq> set (spec_reasons s2 b2)"
  shows "length (matched_keywords (norm_text s1 b1)) \<le> length (matched_keywords (norm_text s2 b2))"
proof -
  have "set (matched_keywords (norm_text s1 b1)) \<subseteq> set (matched_keywords (norm_text s2 b2))"
    using assms keyword_reason_in_reasons by blast
  then have "card (set (matched_keywords (norm_text s1 b1)))
               \<le> card (set (matched_keywords (norm_text s2 b2)))"
    by (simp add: card_mono)
  then show ?thesis
    by (simp add: distinct_card distinct_matched_keywords)
qed

lemma spec_score_mono:
  assumes sub: "set (spec_reasons s1 b1) \<subseteq> set (spec_reasons s2 b2)"
  shows "spec_score s1 b1 \<le> spec_score s2 b2"
proof -
  have k: "length (matched_keywords (norm_text s1 b1)) \<le> length (matched_keywords (norm_text s2 b2))"
    using sub by (rule matched_keywords_mono)
  have l: "link_rule (norm_text s1 b1) \<Longrightarrow> link_rule (norm_text s2 b2)"
    using sub link_reason_in_reasons by blast
  have f: "financial_rule (norm_text s1 b1) \<Longrightarrow> financial_rule (norm_text s2 b2)"
    using sub financial_reason_in_reasons by blast
  show ?thesis
    using k l f by (auto simp: spec_score_def Let_def)
qed

lemma spec_score_range: "10 \<le> spec_score subject body \<and> spec_score subject body \<le> 100"
  by (simp add: spec_score_def Let_def)

text \<open>
  C1. For every integer score from 0 to 100 the verdict is SAFE exactly when the score is
  at most 30, SUSPICIOUS exactly when it lies between 31 and 69, and PHISHING exactly
  when it is at least 70.
\<close>

theorem verdict_thresholds:
  assumes "0 \<le> s" and "s \<le> 100"
  shows "(score_to_verdict s = ''SAFE'' \<longleftrightarrow> s \<le> 30)
       \<and> (score_to_verdict s = ''SUSPICIOUS'' \<longleftrightarrow> 31 \<le> s \<and> s \<le> 69)
       \<and> (score_to_verdict s = ''PHISHING'' \<longleftrightarrow> 70 \<le> s)"
  by (auto simp: score_to_verdict_def)

theorem verdict_thresholds_witness:
  "(0::int) \<le> 30 \<and> (30::int) \<le> 100 \<and> score_to_verdict 30 = ''SAFE''
     \<and> score_to_verdict 31 \<noteq> ''SAFE'' \<and> (0::int) \<le> 70 \<and> (70::int) \<le> 100
     \<and> score_to_verdict 70 = ''PHISHING''"
  using verdict_thresholds [of 30] verdict_thresholds [of 31] verdict_thresholds [of 70]
  by simp

text \<open>
  C2. For every subject and body the score of the risk scorer lies between 10 and 100,
  and whenever a second input triggers every rule a first input triggers (the reasons
  returned for the first are among the reasons returned for the second), the score of
  the second is at least the score of the first.
\<close>

theorem score_range_and_monotone:
  "10 \<le> fst (simple_heuristic_score subject body)
   \<and> fst (simple_heuristic_score subject body) \<le> 100
   \<and> (set (snd (simple_heuristic_score s1 b1)) \<subseteq> set (snd (simple_heuristic_score s2 b2))
        \<longrightarrow> fst (simple_heuristic_score s1 b1) \<le> fst (simple_heuristic_score s2 b2))"
  using spec_score_range [of subject body] spec_score_mono [of s1 b1 s2 b2]
  by (simp add: simple_heuristic_score_eq)

theorem score_range_and_monotone_witness:
  "set (snd (simple_heuristic_score ''hi'' ''Click'')) \<subseteq> set (snd (simple_heuristic_score ''hi'' ''Click http://x''))
   \<and> fst (simple_heuristic_score ''hi'' ''Click'') = 25
   \<and> fst (simple_heuristic_score ''hi'' ''Click http://x'') = 45
   \<and> fst (simple_heuristic_score ''hi'' ''Click'') \<le> fst (simple_heuristic_score ''hi'' ''Click http://x'')"
proof -
  have a: "simple_heuristic_score ''hi'' ''Click'' = (25, [''Contains keyword: click''])"
    by code_simp
  have b: "simple_heuristic_score ''hi'' ''Click http://x''
             = (45, [''Contains keyword: click'', ''Contains a link''])"
    by code_simp
  show ?thesis
    using score_range_and_monotone [of "''hi''" "''Click''" "''hi''" "''Click''" "''hi''" "''Click http://x''"]
    by (simp add: a b)
qed

text \<open>
  C3. For every subject and body the scorer returns the score of the closed formula (10,
  plus 15 for each keyword of the ordered keyword list occurring in the lowercased
  \<open>subject + " " + body\<close>, plus 20 once for a link, plus 15 once for a financial term,
  clamped at 100) and exactly the reasons of the matched keywords in keyword order, then
  the link reason, then the financial reason.
\<close>

theorem score_and_reasons_formula:
  "phishing_keywords
     = [''password'', ''verify'', ''account'', ''login'', ''click'', ''reset'', ''urgent'']
   \<and> fst (simple_heuristic_score subject body)
     = min 100 (10 + 15 * int (length (filter (\<lambda>w. str_in w (str_lower (subject @ '' '' @ body)))
                   phishing_keywords))
                + (if str_in ''http://'' (str_lower (subject @ '' '' @ body))
                      \<or> str_in ''https://'' (str_lower (subject @ '' '' @ body)) then 20 else 0)
                + (if str_in ''bank'' (str_lower (subject @ '' '' @ body))
                      \<or> str_in ''paypal'' (str_lower (subject @ '' '' @ body))
                      \<or> str_in ''crypto'' (str_lower (subject @ '' '' @ body)) then 15 else 0))
   \<and> snd (simple_heuristic_score subject body)
     = map (\<lambda>w. ''Contains keyword: '' @ w)
         (filter (\<lambda>w. str_in w (str_lower (subject @ '' '' @ body))) phishing_keywords)
       @ (if str_in ''http://'' (str_lower (subject @ '' '' @ body))
             \<or> str_in ''https://'' (str_lower (subject @ '' '' @ body))
          then [''Contains a link''] else [])
       @ (if str_in ''bank'' (str_lower (subject @ '' '' @ body))
             \<or> str_in ''paypal'' (str_lower (subject @ '' '' @ body))
             \<or> str_in ''crypto'' (str_lower (subject @ '' '' @ body))
          then [''Mentions financial service or money''] else [])"
proof (intro conjI)
  show "phishing_keywords
     = [''password'', ''verify'', ''account'', ''login'', ''click'', ''reset'', ''urgent'']"
    by (rule phishing_keywords_def)
qed (simp_all add: simple_heuristic_score_eq spec_score_def spec_reasons_def norm_text_def
      link_rule_def financial_rule_def matched_keywords_def Let_def)

theorem score_and_reasons_formula_witness:
  "simple_heuristic_score ''Urgent'' ''verify your PayPal account at https://x.y''
     = (90, [''Contains keyword: verify'', ''Contains keyword: account'',
             ''Contains keyword: urgent'', ''Contains a link'',
             ''Mentions financial service or money''])"
proof -
  have l: "str_lower (''Urgent'' @ '' '' @ ''verify your PayPal account at https://x.y'')
             = ''urgent verify your paypal account at https://x.y''"
    by code_simp
  have "fst (simple_heuristic_score ''Urgent'' ''verify your PayPal account at https://x.y'') = 90"
    using score_and_reasons_formula [of "''Urgent''" "''verify your PayPal account at https://x.y''"]
    unfolding l by (simp add: phishing_keywords_def)
  moreover have "snd (simple_heuristic_score ''Urgent'' ''verify your PayPal account at https://x.y'')
     = [''Contains keyword: verify'', ''Contains keyword: account'',
             ''Contains keyword: urgent'', ''Contains a link'',
             ''Mentions financial service or money'']"
    using score_and_reasons_formula [of "''Urgent''" "''verify your PayPal account at https://x.y''"]
    unfolding l by (simp add: phishing_keywords_def)
  ultimately show ?thesis by (simp add: prod_eq_iff)
qed

text \<open>
  C7. When raw_headers is absent or the empty string, the header inspector returns the
  three authentication fields as unknown and exactly the one flag "No headers provided".
\<close>

theorem no_headers_all_unknown:
  assumes "raw_headers = None \<or> raw_headers = Some []"
  shows "spf_pass (fake_header_analysis raw_headers) = None
       \<and> dkim_pass (fake_header_analysis raw_headers) = None
       \<and> dmarc_pass (fake_header_analysis raw_headers) = None
       \<and> suspicious_flags (fake_header_analysis raw_headers) = [''No headers provided'']"
  using assms by (auto simp: fake_header_analysis_def falsy_def)

theorem no_headers_all_unknown_witness:
  "spf_pass (fake_header_analysis None) = None
   \<and> dkim_pass (fake_header_analysis (Some [])) = None
   \<and> suspicious_flags (fake_header_analysis (Some [])) = [''No headers provided'']"
  using no_headers_all_unknown [of None] no_headers_all_unknown [of "Some []"]
  by simp

text \<open>
  C8. For the header text "SPF=PASS; DKIM=fail" the inspector returns spf_pass true,
  dkim_pass and dmarc_pass false and exactly the DKIM fail flag. For every non-empty
  header text each pass field is true exactly when the lowercased text contains the
  mechanism's "=pass" string, and each "=fail" string found appends its own flag, in
  the order SPF, DKIM, DMARC.
\<close>

theorem header_checks:
  "spf_pass (fake_header_analysis (Some ''SPF=PASS; DKIM=fail'')) = Some True
   \<and> dkim_pass (fake_header_analysis (Some ''SPF=PASS; DKIM=fail'')) = Some False
   \<and> dmarc_pass (fake_header_analysis (Some ''SPF=PASS; DKIM=fail'')) = Some False
   \<and> suspicious_flags (fake_header_analysis (Some ''SPF=PASS; DKIM=fail''))
       = [''DKIM fail found in Authentication-Results'']
   \<and> (h \<noteq> [] \<longrightarrow>
        spf_pass (fake_header_analysis (Some h)) = Some (str_in ''spf=pass'' (str_lower h))
      \<and> dkim_pass (fake_header_analysis (Some h)) = Some (str_in ''dkim=pass'' (str_lower h))
      \<and> dmarc_pass (fake_header_analysis (Some h)) = Some (str_in ''dmarc=pass'' (str_lower h))
      \<and> suspicious_flags (fake_header_analysis (Some h))
          = (if str_in ''spf=fail'' (str_lower h)
             then [''SPF fail found in Authentication-Results''] else [])
          @ (if str_in ''dkim=fail'' (str_lower h)
             then [''DKIM fail found in Authentication-Results''] else [])
          @ (if str_in ''dmarc=fail'' (str_lower h)
             then [''DMARC fail found in Authentication-Results''] else []))"
proof -
  have ex: "fake_header_analysis (Some ''SPF=PASS; DKIM=fail'')
          = \<lparr> spf_pass = Some True, dkim_pass = Some False, dmarc_pass = Some False,
              from_domain = None, return_path_domain = None, reply_to_domain = None,
              suspicious_flags = [''DKIM fail found in Authentication-Results''] \<rparr>"
    by code_simp
  show ?thesis
    by (simp add: ex) (simp add: fake_header_analysis_def falsy_def Let_def)
qed

theorem header_checks_witness:
  "''spf=fail dmarc=pass'' \<noteq> []
   \<and> spf_pass (fake_header_analysis (Some ''spf=fail dmarc=pass'')) = Some False
   \<and> dmarc_pass (fake_header_analysis (Some ''spf=fail dmarc=pass'')) = Some True
   \<and> suspicious_flags (fake_header_analysis (Some ''spf=fail dmarc=pass''))
        = [''SPF fail found in Authentication-Results'']"
proof -
  have l: "str_lower ''spf=fail dmarc=pass'' = ''spf=fail dmarc=pass''"
    by code_simp
  show ?thesis
    using header_checks [of "''spf=fail dmarc=pass''"] by (simp add: l)
qed

section \<open>Properties of the matcher\<close>

declare re_sub.simps [simp del]

lemma star_ends_nonempty: "star_ends P s \<noteq> []"
  by (induction s) auto

lemma star_ends_length: "r \<in> set (star_ends P s) \<Longrightarrow> length r \<le> length s"
  by (induction s) (auto split: if_splits)

lemma concat_map_concat_map:
  "concat (map f (concat (map g xs))) = concat (map (\<lambda>x. concat (map f (g x))) xs)"
  by (induction xs) auto

lemma ends_Seq_assoc: "ends ic (Seq (Seq a b) c) s = ends ic (Seq a (Seq b c)) s"
proof -
  have "ends ic (Seq b c) = (\<lambda>x. concat (map (ends ic c) (ends ic b x)))"
    by (rule ext) simp
  then show ?thesis by (simp add: concat_map_concat_map)
qed

lemma ends_Seq_One:
  "ends ic (Seq (One k) r) s =
     (case s of [] \<Rightarrow> [] | x # xs \<Rightarrow> if cls_ok ic k x then ends ic r xs else [])"
  by (auto split: list.splits)

lemma ends_Seq_Opt:
  "ends ic (Seq (Opt k) r) s =
     (case s of [] \<Rightarrow> ends ic r []
      | x # xs \<Rightarrow> if cls_ok ic k x then ends ic r xs @ ends ic r (x # xs) else ends ic r (x # xs))"
  by (auto split: list.splits)

lemma ends_Plus:
  "ends ic (Plus k) s =
     (case s of [] \<Rightarrow> [] | x # xs \<Rightarrow> if cls_ok ic k x then star_ends (cls_ok ic k) xs else [])"
  by simp

lemma ends_Seq_lit_Nil: "ends ic (Seq (lit []) r) s = ends ic r s"
  by simp

lemma ends_Seq_lit_Cons:
  "ends ic (Seq (lit (c # w)) r) s =
     (case s of [] \<Rightarrow> [] | x # xs \<Rightarrow> if cls_ok ic (Lit c) x then ends ic (Seq (lit w) r) xs else [])"
proof (cases w)
  case Nil
  then show ?thesis by (auto split: list.splits)
next
  case (Cons d w')
  have "ends ic (Seq (lit (c # d # w')) r) s = ends ic (Seq (Seq (One (Lit c)) (lit (d # w'))) r) s"
    by simp
  also have "\<dots> = ends ic (Seq (One (Lit c)) (Seq (lit (d # w')) r)) s"
    by (rule ends_Seq_assoc)
  finally show ?thesis unfolding Cons by (simp only: ends_Seq_One)
qed

lemmas ends_unfold = ends_Seq_lit_Cons ends_Seq_lit_Nil ends_Seq_Opt ends_Plus

lemma ends_url_iff: "ends False url_pattern s \<noteq> [] \<longleftrightarrow> url_at s"
proof
  assume "ends False url_pattern s \<noteq> []"
  then show "url_at s"
    unfolding url_pattern_def url_at_def
    by (simp only: ends_unfold) (auto split: list.splits if_splits)
next
  assume "url_at s"
  then show "ends False url_pattern s \<noteq> []"
    unfolding url_pattern_def url_at_def
    by (simp only: ends_unfold) (auto simp: star_ends_nonempty)
qed

lemma ends_length: "rest \<in> set (ends ic r s) \<Longrightarrow> length rest \<le> length s"
proof (induction r arbitrary: s rest)
  case (Seq a b)
  then obtain mid where "mid \<in> set (ends ic a s)" "rest \<in> set (ends ic b mid)"
    by auto
  then show ?case using Seq.IH by (meson le_trans)
next
  case (Star k)
  then show ?case by (simp add: star_ends_length)
next
  case (Plus k)
  then show ?case by (auto split: list.splits if_splits dest: star_ends_length)
qed (auto split: list.splits if_splits)

lemma ends_Seq_lit_shorter:
  assumes "rest \<in> set (ends ic (Seq (lit (c # w)) r) s)"
  shows "length rest < length s"
proof (cases s)
  case Nil
  then show ?thesis using assms by (simp only: ends_Seq_lit_Cons) simp
next
  case (Cons x xs)
  then have "rest \<in> set (ends ic (Seq (lit w) r) xs)"
    using assms by (simp only: ends_Seq_lit_Cons) (simp split: if_splits)
  then have "length rest \<le> length xs" by (rule ends_length)
  then show ?thesis using Cons by simp
qed

lemma concat_map_single: "concat (map (\<lambda>x. [x]) xs) = xs"
  by (induction xs) auto

lemma ends_Seq_Eps: "ends ic (Seq r Eps) s = ends ic r s"
proof -
  have "ends ic Eps = (\<lambda>x. [x])" by (rule ext) simp
  then show ?thesis by (simp add: concat_map_single)
qed

lemma ends_lit_shorter:
  assumes "rest \<in> set (ends ic (lit (c # w)) s)"
  shows "length rest < length s"
  using assms ends_Seq_lit_shorter [of rest ic c w Eps s] by (simp only: ends_Seq_Eps)

lemma ends_url_shorter:
  assumes "rest \<in> set (ends False url_pattern s)"
  shows "length rest < length s"
  using assms unfolding url_pattern_def by (rule ends_Seq_lit_shorter)

lemma re_sub_Nil_nomatch: "ends ic r [] = [] \<Longrightarrow> re_sub ic r repl [] = []"
  by (subst re_sub.simps) simp

lemma re_sub_nomatch:
  "ends ic r (c # cs) = [] \<Longrightarrow> re_sub ic r repl (c # cs) = c # re_sub ic r repl cs"
  by (subst re_sub.simps) simp

lemma re_sub_match:
  "ends ic r s = rest # alts \<Longrightarrow> length rest < length s
     \<Longrightarrow> re_sub ic r repl s = repl @ re_sub ic r repl rest"
  by (subst re_sub.simps) simp

section \<open>Properties of the rewrite\<close>

lemma rev_dropWhile_split:
  "xs = rev (dropWhile P (rev xs)) @ rev (takeWhile P (rev xs))"
  by (metis rev_append rev_rev_ident takeWhile_dropWhile_id)

lemma list_all_takeWhile: "list_all P (takeWhile P xs)"
  by (induction xs) auto

lemma str_strip_decomp:
  "\<exists>l r. s = l @ str_strip s @ r \<and> list_all is_space l \<and> list_all is_space r"
proof -
  let ?d = "dropWhile is_space s"
  have a: "s = takeWhile is_space s @ ?d" by simp
  have b: "?d = str_strip s @ rev (takeWhile is_space (rev ?d))"
    unfolding str_strip_def by (rule rev_dropWhile_split)
  have c: "list_all is_space (takeWhile is_space s)"
    by (rule list_all_takeWhile)
  have d: "list_all is_space (rev (takeWhile is_space (rev ?d)))"
    using list_all_takeWhile [of is_space "rev ?d"] by (simp add: list_all_iff)
  have "s = takeWhile is_space s @ str_strip s @ rev (takeWhile is_space (rev ?d))"
    using a b by metis
  then show ?thesis using c d by blast
qed

lemma str_strip_ends:
  assumes "str_strip s \<noteq> []"
  shows "\<not> is_space (hd (str_strip s)) \<and> \<not> is_space (last (str_strip s))"
proof -
  let ?d = "dropWhile is_space s"
  let ?e = "dropWhile is_space (rev ?d)"
  have e: "?e \<noteq> []" using assms by (simp add: str_strip_def)
  then have l: "\<not> is_space (hd ?e)" by (rule hd_dropWhile)
  have la: "last (str_strip s) = hd ?e"
    using e by (simp add: str_strip_def last_rev)
  have "rev ?d \<noteq> []" using e by (metis dropWhile.simps(1))
  then have dn: "?d \<noteq> []" by simp
  then have h: "\<not> is_space (hd ?d)" by (rule hd_dropWhile)
  have "?d = str_strip s @ rev (takeWhile is_space (rev ?d))"
    unfolding str_strip_def by (rule rev_dropWhile_split)
  then have "hd (str_strip s) = hd ?d" using assms by (metis hd_append2)
  then show ?thesis using l la h by simp
qed

text \<open>
  C9. When the body produced by the earlier rewrite steps does not contain "thank you"
  in any letter case, the final body is that body without its leading and trailing
  whitespace, followed by a blank line, the line "Thank you," and "Customer Support
  Team"; when it does, the body is left as it is.
\<close>

theorem closing_step:
  "snd (rewrite_to_safe subject body)
     = (if str_in ''thank you'' (str_lower (softened_body body)) then softened_body body
        else str_strip (softened_body body)
             @ [CHR 0x0A, CHR 0x0A] @ ''Thank you,'' @ [CHR 0x0A] @ ''Customer Support Team'')
   \<and> (\<exists>l r. softened_body body = l @ str_strip (softened_body body) @ r
            \<and> list_all is_space l \<and> list_all is_space r)
   \<and> (str_strip (softened_body body) = []
        \<or> (\<not> is_space (hd (str_strip (softened_body body)))
            \<and> \<not> is_space (last (str_strip (softened_body body)))))"
  using str_strip_decomp [of "softened_body body"] str_strip_ends [of "softened_body body"]
  by (auto simp: rewrite_to_safe_def closing_def Let_def)

theorem closing_step_witness:
  "snd (rewrite_to_safe ''Hi'' ('' Urgent. '' @ [CHR 0x0A]))
     = ''important.'' @ [CHR 0x0A, CHR 0x0A] @ ''Thank you,''
       @ [CHR 0x0A] @ ''Customer Support Team''
   \<and> snd (rewrite_to_safe ''Hi'' ''THANK YOU  '') = ''THANK YOU  ''"
proof -
  have a: "softened_body ('' Urgent. '' @ [CHR 0x0A]) = '' important. '' @ [CHR 0x0A]"
    by code_simp
  have b: "softened_body ''THANK YOU  '' = ''THANK YOU  ''"
    by code_simp
  have c: "str_lower ('' important. '' @ [CHR 0x0A]) = '' important. '' @ [CHR 0x0A]"
    by code_simp
  have d: "str_lower ''THANK YOU  '' = ''thank you  ''"
    by code_simp
  have e: "str_strip ('' important. '' @ [CHR 0x0A]) = ''important.''"
    by code_simp
  show ?thesis
    using closing_step [of "''Hi''" "'' Urgent. '' @ [CHR 0x0A]"]
      closing_step [of "''Hi''" "''THANK YOU  ''"]
    unfolding a b c d e by simp
qed

section \<open>No link is left in the rewritten body\<close>

lemma run_Nil: "run q [] = q"
  by (simp add: run_def)

lemma run_Cons: "run q (c # cs) = run (step q c) cs"
  by (simp add: run_def)

lemma run_append: "run q (u @ v) = run (run q u) v"
  by (simp add: run_def)

lemma run_None: "run None s = None"
  by (induction s) (simp_all add: run_Nil run_Cons)

lemma step_pending:
  assumes "pending p" and "step (Some p) c = Some p'"
  shows "pending p'"
proof -
  have "pending ''h''" "pending []" by (simp_all add: pending_def)
  then show ?thesis using assms by (auto split: if_splits)
qed

lemma run_pending:
  "pending p \<Longrightarrow> run (Some p) s = Some p' \<Longrightarrow> pending p'"
proof (induction s arbitrary: p)
  case Nil
  then show ?case by (simp add: run_Nil)
next
  case (Cons c cs)
  show ?case
  proof (cases "step (Some p) c")
    case None
    then show ?thesis using Cons.prems by (simp add: run_Cons run_None)
  next
    case (Some q)
    have "pending q" using step_pending [OF Cons.prems(1) Some] .
    moreover have "run (Some q) cs = Some p'"
      using Cons.prems(2) Some by (simp add: run_Cons)
    ultimately show ?thesis by (rule Cons.IH)
  qed
qed

lemma not_space_h: "\<not> is_space CHR ''h''"
  by (simp add: is_space_def)

lemma run_url_head:
  assumes "pending p"
  shows "run (Some p) ''http://'' = None \<or> run (Some p) ''http://'' = Some ''http://''"
    and "run (Some p) ''https://'' = None \<or> run (Some p) ''https://'' = Some ''https://''"
  using assms unfolding pending_def
  by (elim disjE; simp add: run_Cons run_Nil full_def pending_def not_space_h)+

lemma url_at_run:
  assumes "url_at v" and "pending p"
  shows "run (Some p) v = None"
proof -
  obtain c t where c: "\<not> is_space c" and v: "v = ''http://'' @ c # t \<or> v = ''https://'' @ c # t"
    using assms(1) unfolding url_at_def by blast
  have a: "step (Some ''http://'') c = None" "step (Some ''https://'') c = None"
    using c by (simp_all add: full_def)
  from v show ?thesis
  proof
    assume "v = ''http://'' @ c # t"
    then have "run (Some p) v = run (step (run (Some p) ''http://'') c) t"
      by (simp only: run_append run_Cons)
    then show ?thesis using run_url_head(1) [OF assms(2)] a by (auto simp: run_None)
  next
    assume "v = ''https://'' @ c # t"
    then have "run (Some p) v = run (step (run (Some p) ''https://'') c) t"
      by (simp only: run_append run_Cons)
    then show ?thesis using run_url_head(2) [OF assms(2)] a by (auto simp: run_None)
  qed
qed

lemma re_search_iff: "re_search ic r s \<longleftrightarrow> (\<exists>u v. s = u @ v \<and> ends ic r v \<noteq> [])"
proof (induction s)
  case Nil
  then show ?case by simp
next
  case (Cons c cs)
  show ?case
  proof
    assume "re_search ic r (c # cs)"
    then consider "ends ic r (c # cs) \<noteq> []" | "re_search ic r cs" by auto
    then show "\<exists>u v. c # cs = u @ v \<and> ends ic r v \<noteq> []"
    proof cases
      case 1
      then show ?thesis by (metis append_Nil)
    next
      case 2
      then obtain u v where "cs = u @ v" "ends ic r v \<noteq> []" using Cons by blast
      then show ?thesis by (metis append_Cons)
    qed
  next
    assume "\<exists>u v. c # cs = u @ v \<and> ends ic r v \<noteq> []"
    then obtain u v where uv: "c # cs = u @ v" "ends ic r v \<noteq> []" by blast
    show "re_search ic r (c # cs)"
    proof (cases u)
      case Nil
      then have "ends ic r (c # cs) \<noteq> []" using uv by simp
      then show ?thesis by simp
    next
      case (Cons d u')
      then have "cs = u' @ v" using uv by simp
      then show ?thesis using uv(2) Cons.IH by auto
    qed
  qed
qed

lemma run_no_url:
  assumes "run (Some []) s \<noteq> None"
  shows "\<not> re_search False url_pattern s"
proof
  assume "re_search False url_pattern s"
  then obtain u v where s: "s = u @ v" and v: "url_at v"
    by (auto simp: re_search_iff ends_url_iff)
  have p0: "pending []" by (simp add: pending_def)
  show False
  proof (cases "run (Some []) u")
    case None
    then show ?thesis using assms s by (simp add: run_append run_None)
  next
    case (Some p)
    then have "pending p" using run_pending [OF p0] by blast
    then have "run (Some p) v = None" by (rule url_at_run [OF v])
    then show ?thesis using assms s Some by (simp add: run_append)
  qed
qed

declare step.simps(2) [simp del]

lemma pending_Nil: "pending []"
  by (simp add: pending_def)

lemma pending_last:
  assumes "pending q" and "q \<noteq> []"
  shows "last q \<in> set ''htps:/''"
  using assms unfolding pending_def by (elim disjE; simp)

lemma step_kill:
  assumes "c \<notin> set ''htps:/''" and "\<not> full p"
  shows "step (Some p) c = Some []"
proof -
  have "\<not> pending (p @ [c])" using pending_last [of "p @ [c]"] assms(1) by auto
  moreover have "c \<noteq> CHR ''h''" using assms(1) by auto
  ultimately show ?thesis using assms(2) by (simp add: step.simps)
qed

lemma step_from_Nil: "c \<noteq> CHR ''h'' \<Longrightarrow> step (Some []) c = Some []"
  by (simp add: step.simps full_def pending_def)

lemma step_space:
  assumes "is_space c"
  shows "step (Some p) c = Some []"
proof -
  have "c \<notin> set ''htps:/''" using assms by (auto simp: is_space_def)
  then have "\<not> pending (p @ [c])" using pending_last [of "p @ [c]"] by auto
  moreover have "c \<noteq> CHR ''h''" using assms not_space_h by auto
  ultimately show ?thesis using assms by (simp add: step.simps)
qed

lemma step_Some:
  assumes "run (Some p) (c # cs) \<noteq> None" and "pending p"
  obtains p' where "step (Some p) c = Some p'" and "pending p'" and "run (Some p') cs \<noteq> None"
proof (cases "step (Some p) c")
  case None
  have "run (Some p) (c # cs) = None" unfolding run_Cons None by (rule run_None)
  then show ?thesis using assms(1) by simp
next
  case (Some p')
  show ?thesis
  proof (rule that)
    show "step (Some p) c = Some p'" by fact
    show "pending p'" using step_pending [OF assms(2) Some] .
    show "run (Some p') cs \<noteq> None" using assms(1) unfolding run_Cons Some .
  qed
qed

lemma run_Some:
  assumes "run (Some p) (u @ v) \<noteq> None" and "pending p"
  obtains p' where "run (Some p) u = Some p'" and "pending p'" and "run (Some p') v \<noteq> None"
proof (cases "run (Some p) u")
  case None
  have "run (Some p) (u @ v) = None" unfolding run_append None by (rule run_None)
  then show ?thesis using assms(1) by simp
next
  case (Some p')
  show ?thesis
  proof (rule that)
    show "run (Some p) u = Some p'" by fact
    show "pending p'" using run_pending [OF assms(2) Some] .
    show "run (Some p') v \<noteq> None" using assms(1) unfolding run_append Some .
  qed
qed

lemma url_at_head: "url_at s \<Longrightarrow> \<exists>t. s = CHR ''h'' # t"
  by (auto simp: url_at_def)

lemma full_url_at: "full p \<Longrightarrow> url_at (p @ CHR ''h'' # t)"
  unfolding full_def url_at_def using not_space_h by auto

lemma full_not_Nil: "full p \<Longrightarrow> p \<noteq> []"
  by (auto simp: full_def)

lemma step_inv:
  assumes p: "pending p"
    and inv: "p \<noteq> [] \<longrightarrow> \<not> url_at (p @ c # cs)"
    and nu: "\<not> url_at (c # cs)"
  shows "\<exists>p'. step (Some p) c = Some p' \<and> pending p' \<and> (p' \<noteq> [] \<longrightarrow> \<not> url_at (p' @ cs))"
proof -
  have a: "\<not> (full p \<and> \<not> is_space c)"
  proof
    assume f: "full p \<and> \<not> is_space c"
    then have "url_at (p @ c # cs)" unfolding full_def url_at_def by auto
    then show False using inv f full_not_Nil by blast
  qed
  have b: "\<not> url_at ((p @ [c]) @ cs)"
    using inv nu by (cases "p = []") simp_all
  have h: "pending ''h''" by (simp add: pending_def)
  show ?thesis
  proof (cases "pending (p @ [c])")
    case True
    then show ?thesis using a b by (simp add: step.simps)
  next
    case False
    show ?thesis
    proof (cases "c = CHR ''h''")
      case True
      then show ?thesis using a False h nu by (simp add: step.simps)
    next
      case False
      then show ?thesis using a \<open>\<not> pending (p @ [c])\<close> pending_Nil by (simp add: step.simps)
    qed
  qed
qed

lemma run_link_removed:
  assumes "\<not> full p"
  shows "run (Some p) ''[link removed]'' = Some []"
proof -
  have "step (Some p) CHR ''['' = Some []"
    using assms by (intro step_kill) simp_all
  moreover have "run (Some []) ''link removed]'' = Some []"
    by (simp add: run_Cons run_Nil step.simps full_def pending_def)
  ultimately show ?thesis by (simp add: run_Cons)
qed

lemma run_sub_url:
  "pending p \<Longrightarrow> (p \<noteq> [] \<longrightarrow> \<not> url_at (p @ s))
     \<Longrightarrow> run (Some p) (re_sub False url_pattern ''[link removed]'' s) \<noteq> None"
proof (induction s arbitrary: p rule: length_induct)
  case (1 s)
  show ?case
  proof (cases "ends False url_pattern s")
    case Nil
    then have nu: "\<not> url_at s" using ends_url_iff by blast
    show ?thesis
    proof (cases s)
      case Nil
      then show ?thesis
        using \<open>ends False url_pattern s = []\<close> by (simp add: re_sub_Nil_nomatch run_Nil)
    next
      case (Cons c cs)
      have eq: "re_sub False url_pattern ''[link removed]'' s
                  = c # re_sub False url_pattern ''[link removed]'' cs"
        using \<open>ends False url_pattern s = []\<close> Cons by (simp add: re_sub_nomatch)
      obtain p' where p': "step (Some p) c = Some p'" "pending p'"
          "p' \<noteq> [] \<longrightarrow> \<not> url_at (p' @ cs)"
        using step_inv [of p c cs] "1.prems" nu Cons by auto
      have "length cs < length s" using Cons by simp
      then have "run (Some p') (re_sub False url_pattern ''[link removed]'' cs) \<noteq> None"
        using "1.IH" p'(2,3) by blast
      then show ?thesis unfolding eq run_Cons p'(1) .
    qed
  next
    case (Cons rest alts)
    then have "ends False url_pattern s \<noteq> []" by simp
    then have ua: "url_at s" by (simp add: ends_url_iff)
    have sh: "length rest < length s" using Cons ends_url_shorter by simp
    have eq: "re_sub False url_pattern ''[link removed]'' s
                = ''[link removed]'' @ re_sub False url_pattern ''[link removed]'' rest"
      using Cons sh by (rule re_sub_match)
    have nf: "\<not> full p"
    proof
      assume f: "full p"
      obtain t where "s = CHR ''h'' # t" using ua url_at_head by blast
      then have "url_at (p @ s)" using f full_url_at by simp
      then show False using "1.prems"(2) f full_not_Nil by blast
    qed
    have "run (Some []) (re_sub False url_pattern ''[link removed]'' rest) \<noteq> None"
      using "1.IH" sh pending_Nil by blast
    then show ?thesis
      unfolding eq run_append run_link_removed [OF nf] .
  qed
qed

lemma ends_Seq_lit_ci:
  "x \<in> set (ends True (Seq (lit w) r) s)
     \<Longrightarrow> \<exists>m t. s = m @ t \<and> map lower_char m = map lower_char w \<and> x \<in> set (ends True r t)"
proof (induction w arbitrary: s)
  case Nil
  then show ?case by (simp only: ends_Seq_lit_Nil) auto
next
  case (Cons c w)
  from Cons.prems obtain d ds where s: "s = d # ds" and d: "lower_char d = lower_char c"
      and x: "x \<in> set (ends True (Seq (lit w) r) ds)"
    by (simp only: ends_Seq_lit_Cons) (auto split: list.splits if_splits)
  from Cons.IH [OF x] obtain m t where "ds = m @ t" "map lower_char m = map lower_char w"
      "x \<in> set (ends True r t)" by blast
  then have "s = (d # m) @ t \<and> map lower_char (d # m) = map lower_char (c # w)
               \<and> x \<in> set (ends True r t)"
    using s d by simp
  then show ?case by blast
qed

lemma ends_lit_ci:
  assumes "ends True (lit w) s = rest # alts"
  shows "\<exists>m. s = m @ rest \<and> map lower_char m = map lower_char w"
proof -
  have "rest \<in> set (ends True (Seq (lit w) Eps) s)"
    using assms by (simp only: ends_Seq_Eps) simp
  then show ?thesis using ends_Seq_lit_ci [of rest w Eps s] by auto
qed

lemma space_lower: "is_space c \<Longrightarrow> lower_char c = c"
  by (auto simp: is_space_def lower_char_def is_upper_cp_def Let_def)

lemma url_char_lower: "c \<in> set ''htps:/'' \<Longrightarrow> lower_char c = c"
  by (auto simp: lower_char_def is_upper_cp_def)

lemma lower_not_space: "lower_char c = y \<Longrightarrow> \<not> is_space y \<Longrightarrow> \<not> is_space c"
  using space_lower by auto

lemma lower_not_url_char:
  "lower_char c = y \<Longrightarrow> y \<notin> set ''htps:/'' \<Longrightarrow> c \<notin> set ''htps:/''"
  using url_char_lower by metis

text \<open>
  A replacement rule cannot expose a link: the text it looks for starts with a
  character that is not whitespace and ends with two characters that take the scanner
  back to its start, and the text it puts in does the same.
\<close>

lemma run_sub_lit:
  assumes bad: "bad = x # w @ [a, b]"
    and lx: "\<not> is_space (lower_char x)"
    and la: "lower_char a \<notin> set ''htps:/''"
    and lb: "lower_char b \<noteq> CHR ''h''"
    and good: "\<And>p. pending p \<Longrightarrow> \<not> full p \<Longrightarrow> run (Some p) good = Some []"
  shows "pending p \<Longrightarrow> run (Some p) s \<noteq> None
           \<Longrightarrow> run (Some p) (re_sub True (lit bad) good s) \<noteq> None"
proof (induction s arbitrary: p rule: length_induct)
  case (1 s)
  show ?case
  proof (cases "ends True (lit bad) s")
    case Nil
    show ?thesis
    proof (cases s)
      case Nil
      then show ?thesis
        using \<open>ends True (lit bad) s = []\<close> "1.prems" by (simp add: re_sub_Nil_nomatch run_Nil)
    next
      case (Cons c cs)
      have eq: "re_sub True (lit bad) good s = c # re_sub True (lit bad) good cs"
        using \<open>ends True (lit bad) s = []\<close> Cons by (simp add: re_sub_nomatch)
      obtain p' where p': "step (Some p) c = Some p'" "pending p'" "run (Some p') cs \<noteq> None"
        using step_Some [of p c cs] "1.prems" Cons by auto
      have "length cs < length s" using Cons by simp
      then have "run (Some p') (re_sub True (lit bad) good cs) \<noteq> None"
        using "1.IH" p'(2,3) by blast
      then show ?thesis unfolding eq run_Cons p'(1) .
    qed
  next
    case (Cons rest alts)
    have "rest \<in> set (ends True (lit bad) s)" using Cons by simp
    then have sh: "length rest < length s" unfolding bad by (rule ends_lit_shorter)
    have eq: "re_sub True (lit bad) good s = good @ re_sub True (lit bad) good rest"
      using Cons sh by (rule re_sub_match)
    obtain m where m: "s = m @ rest" "map lower_char m = map lower_char bad"
      using ends_lit_ci [OF Cons] by blast
    from m(2) obtain x' m1 where m1: "m = x' # m1" "lower_char x' = lower_char x"
        "map lower_char m1 = map lower_char (w @ [a, b])"
      unfolding bad by (auto simp: map_eq_Cons_conv)
    from m1(3) obtain w' a' b' where m2: "m1 = w' @ [a', b']" "lower_char a' = lower_char a"
        "lower_char b' = lower_char b"
      by (auto simp: map_eq_append_conv map_eq_Cons_conv)
    have xs: "\<not> is_space x'" using m1(2) lx lower_not_space by blast
    have ak: "a' \<notin> set ''htps:/''" using m2(2) la lower_not_url_char by blast
    have "lower_char CHR ''h'' = CHR ''h''" by (simp add: lower_char_def is_upper_cp_def)
    then have bk: "b' \<noteq> CHR ''h''" using m2(3) lb by auto
    have s: "s = (x' # w') @ a' # b' # rest" using m(1) m1(1) m2(1) by simp
    have nf: "\<not> full p"
    proof
      assume "full p"
      then have "step (Some p) x' = None" using xs by (simp add: step.simps)
      then have "run (Some p) s = None" unfolding s by (simp add: run_Cons run_None)
      then show False using "1.prems"(2) by simp
    qed
    obtain p1 where p1: "run (Some p) (x' # w') = Some p1" "pending p1"
        "run (Some p1) (a' # b' # rest) \<noteq> None"
      using run_Some [of p "x' # w'" "a' # b' # rest"] "1.prems" s by auto
    obtain p2 where p2: "step (Some p1) a' = Some p2" "pending p2"
        "run (Some p2) (b' # rest) \<noteq> None"
      using step_Some [OF p1(3) p1(2)] by blast
    have p2n: "p2 = []"
    proof (rule ccontr)
      assume "p2 \<noteq> []"
      have "\<not> pending (p1 @ [a'])" using pending_last [of "p1 @ [a']"] ak by auto
      moreover have "a' \<noteq> CHR ''h''" using ak by auto
      ultimately have "step (Some p1) a' = None \<or> step (Some p1) a' = Some []"
        by (simp add: step.simps)
      then show False using p2(1) \<open>p2 \<noteq> []\<close> by simp
    qed
    have "step (Some []) b' = Some []" using bk by (rule step_from_Nil)
    then have r: "run (Some []) rest \<noteq> None" using p2(3) p2n by (simp add: run_Cons)
    have "run (Some []) (re_sub True (lit bad) good rest) \<noteq> None"
      using "1.IH" sh pending_Nil r by blast
    then show ?thesis unfolding eq run_append good [OF "1.prems"(1) nf] .
  qed
qed

lemma run_kill_first:
  assumes "g \<notin> set ''htps:/''" and "run (Some []) gs = Some []" and "\<not> full p"
  shows "run (Some p) (g # gs) = Some []"
  unfolding run_Cons step_kill [OF assms(1,3)] by (rule assms(2))

lemma full_last: "full q \<Longrightarrow> last q = CHR ''/''"
  by (auto simp: full_def)

lemma run_soon:
  assumes "\<not> full p"
  shows "run (Some p) ''soon'' = Some []"
proof -
  have o: "run (Some []) ''on'' = Some []"
    by (simp add: run_Cons run_Nil step.simps full_def pending_def)
  have k: "\<And>q. \<not> full q \<Longrightarrow> run (Some q) ''oon'' = Some []"
    using run_kill_first [OF _ o] by simp
  have a: "\<not> full (p @ ''s'')" using full_last [of "p @ ''s''"] by auto
  have b: "\<not> full []" by (simp add: full_def)
  have "step (Some p) CHR ''s'' = Some (p @ ''s'') \<or> step (Some p) CHR ''s'' = Some []"
    using assms by (simp add: step.simps)
  moreover have "run (Some p) ''soon'' = run (step (Some p) CHR ''s'') ''oon''"
    by (rule run_Cons)
  ultimately show ?thesis using k [OF a] k [OF b] by auto
qed

lemma rule_closed:
  assumes "pending p" and "run (Some p) s \<noteq> None"
  shows "run (Some p) (re_sub True (lit ''will be closed'') ''may require your attention'' s) \<noteq> None"
proof (rule run_sub_lit [where x = "CHR ''w''" and w = "''ill be clos''" and a = "CHR ''e''" and b = "CHR ''d''"])
  show "''will be closed'' = CHR ''w'' # ''ill be clos'' @ [CHR ''e'', CHR ''d'']" by simp
  show "\<not> is_space (lower_char CHR ''w'')" by (simp add: lower_char_def is_upper_cp_def is_space_def)
  show "lower_char CHR ''e'' \<notin> set ''htps:/''" by (simp add: lower_char_def is_upper_cp_def)
  show "lower_char CHR ''d'' \<noteq> CHR ''h''" by (simp add: lower_char_def is_upper_cp_def)
  have g: "run (Some []) ''ay require your attention'' = Some []"
    by (simp add: run_Cons run_Nil step.simps full_def pending_def)
  show "\<And>p. pending p \<Longrightarrow> \<not> full p \<Longrightarrow> run (Some p) ''may require your attention'' = Some []"
    using run_kill_first [OF _ g] by simp
qed (use assms in auto)

lemma rule_disabled:
  assumes "pending p" and "run (Some p) s \<noteq> None"
  shows "run (Some p) (re_sub True (lit ''will be disabled'') ''may be temporarily limited'' s) \<noteq> None"
proof (rule run_sub_lit [where x = "CHR ''w''" and w = "''ill be disabl''" and a = "CHR ''e''" and b = "CHR ''d''"])
  show "''will be disabled'' = CHR ''w'' # ''ill be disabl'' @ [CHR ''e'', CHR ''d'']" by simp
  show "\<not> is_space (lower_char CHR ''w'')" by (simp add: lower_char_def is_upper_cp_def is_space_def)
  show "lower_char CHR ''e'' \<notin> set ''htps:/''" by (simp add: lower_char_def is_upper_cp_def)
  show "lower_char CHR ''d'' \<noteq> CHR ''h''" by (simp add: lower_char_def is_upper_cp_def)
  have g: "run (Some []) ''ay be temporarily limited'' = Some []"
    by (simp add: run_Cons run_Nil step.simps full_def pending_def)
  show "\<And>p. pending p \<Longrightarrow> \<not> full p \<Longrightarrow> run (Some p) ''may be temporarily limited'' = Some []"
    using run_kill_first [OF _ g] by simp
qed (use assms in auto)

lemma rule_hours:
  assumes "pending p" and "run (Some p) s \<noteq> None"
  shows "run (Some p) (re_sub True (lit ''within 24 hours'') ''in the near future'' s) \<noteq> None"
proof (rule run_sub_lit [where x = "CHR ''w''" and w = "''ithin 24 hou''" and a = "CHR ''r''" and b = "CHR ''s''"])
  show "''within 24 hours'' = CHR ''w'' # ''ithin 24 hou'' @ [CHR ''r'', CHR ''s'']" by simp
  show "\<not> is_space (lower_char CHR ''w'')" by (simp add: lower_char_def is_upper_cp_def is_space_def)
  show "lower_char CHR ''r'' \<notin> set ''htps:/''" by (simp add: lower_char_def is_upper_cp_def)
  show "lower_char CHR ''s'' \<noteq> CHR ''h''" by (simp add: lower_char_def is_upper_cp_def)
  have g: "run (Some []) ''n the near future'' = Some []"
    by (simp add: run_Cons run_Nil step.simps full_def pending_def)
  show "\<And>p. pending p \<Longrightarrow> \<not> full p \<Longrightarrow> run (Some p) ''in the near future'' = Some []"
    using run_kill_first [OF _ g] by simp
qed (use assms in auto)

lemma rule_immediately:
  assumes "pending p" and "run (Some p) s \<noteq> None"
  shows "run (Some p) (re_sub True (lit ''immediately'') ''soon'' s) \<noteq> None"
proof (rule run_sub_lit [where x = "CHR ''i''" and w = "''mmediate''" and a = "CHR ''l''" and b = "CHR ''y''"])
  show "''immediately'' = CHR ''i'' # ''mmediate'' @ [CHR ''l'', CHR ''y'']" by simp
  show "\<not> is_space (lower_char CHR ''i'')" by (simp add: lower_char_def is_upper_cp_def is_space_def)
  show "lower_char CHR ''l'' \<notin> set ''htps:/''" by (simp add: lower_char_def is_upper_cp_def)
  show "lower_char CHR ''y'' \<noteq> CHR ''h''" by (simp add: lower_char_def is_upper_cp_def)
  show "\<And>p. pending p \<Longrightarrow> \<not> full p \<Longrightarrow> run (Some p) ''soon'' = Some []"
    by (rule run_soon)
qed (use assms in auto)

lemma rule_urgent:
  assumes "pending p" and "run (Some p) s \<noteq> None"
  shows "run (Some p) (re_sub True (lit ''urgent'') ''important'' s) \<noteq> None"
proof (rule run_sub_lit [where x = "CHR ''u''" and w = "''rge''" and a = "CHR ''n''" and b = "CHR ''t''"])
  show "''urgent'' = CHR ''u'' # ''rge'' @ [CHR ''n'', CHR ''t'']" by simp
  show "\<not> is_space (lower_char CHR ''u'')" by (simp add: lower_char_def is_upper_cp_def is_space_def)
  show "lower_char CHR ''n'' \<notin> set ''htps:/''" by (simp add: lower_char_def is_upper_cp_def)
  show "lower_char CHR ''t'' \<noteq> CHR ''h''" by (simp add: lower_char_def is_upper_cp_def)
  have g: "run (Some []) ''mportant'' = Some []"
    by (simp add: run_Cons run_Nil step.simps full_def pending_def)
  show "\<And>p. pending p \<Longrightarrow> \<not> full p \<Longrightarrow> run (Some p) ''important'' = Some []"
    using run_kill_first [OF _ g] by simp
qed (use assms in auto)

lemma run_body_replacements:
  assumes "run (Some []) s \<noteq> None"
  shows "run (Some []) (replace_all body_replacements s) \<noteq> None"
  unfolding body_replacements_def replace_all.simps
  by (intro rule_urgent rule_immediately rule_hours rule_disabled rule_closed pending_Nil assms)

lemma run_spaces: "list_all is_space l \<Longrightarrow> run (Some []) l = Some []"
  by (induction l) (simp_all add: run_Nil run_Cons step_space)

lemma run_closing: "run (Some p) closing = Some []"
proof -
  have "is_space (CHR 0x0A)" by (simp add: is_space_def)
  then have "step (Some p) (CHR 0x0A) = Some []" by (rule step_space)
  moreover have "run (Some []) ([CHR 0x0A] @ ''Thank you,'' @ [CHR 0x0A] @ ''Customer Support Team'') = Some []"
    by (simp add: run_Cons run_Nil step.simps full_def pending_def)
  ultimately show ?thesis by (simp add: closing_def run_Cons)
qed

lemma run_strip_closing:
  assumes "run (Some []) s \<noteq> None"
  shows "run (Some []) (str_strip s @ closing) \<noteq> None"
proof -
  obtain l r where s: "s = l @ str_strip s @ r" and l: "list_all is_space l"
    using str_strip_decomp by blast
  have "run (Some []) (l @ str_strip s @ r) \<noteq> None" using assms s by simp
  then have "run (Some []) (str_strip s @ r) \<noteq> None"
    unfolding run_append [of _ l] run_spaces [OF l] .
  then obtain p where "run (Some []) (str_strip s) = Some p"
    using run_Some [OF _ pending_Nil] by blast
  then show ?thesis by (simp add: run_append run_closing)
qed

lemma run_softened_body: "run (Some []) (softened_body body) \<noteq> None"
  unfolding softened_body_def Let_def
  by (intro run_body_replacements run_sub_url pending_Nil) simp

lemma step_suffix:
  assumes "step (Some p) c = Some p'"
  shows "\<exists>x. p @ [c] = x @ p'"
proof -
  have "p' = p @ [c] \<or> p' = [c] \<or> p' = []"
    using assms by (auto simp: step.simps split: if_splits)
  then show ?thesis by (metis append_Nil append_Nil2 append.assoc)
qed

lemma run_complete:
  "run (Some p) t = None \<Longrightarrow> \<exists>u v. p @ t = u @ v \<and> url_at v"
proof (induction t arbitrary: p)
  case Nil
  then show ?case by (simp add: run_Nil)
next
  case (Cons c cs)
  show ?case
  proof (cases "step (Some p) c")
    case None
    then have "full p \<and> \<not> is_space c" by (simp add: step.simps split: if_splits)
    then have "url_at (p @ c # cs)" unfolding full_def url_at_def by auto
    then show ?thesis by (metis append_Nil)
  next
    case (Some p')
    then have "run (Some p') cs = None" using Cons.prems by (simp add: run_Cons)
    then obtain u v where uv: "p' @ cs = u @ v" "url_at v" using Cons.IH by blast
    obtain x where "p @ [c] = x @ p'" using step_suffix [OF Some] by blast
    then have "p @ c # cs = (x @ u) @ v" using uv(1) by (metis append.assoc append_Cons append_Nil)
    then show ?thesis using uv(2) by blast
  qed
qed

lemma no_url_iff: "\<not> re_search False url_pattern s \<longleftrightarrow> run (Some []) s \<noteq> None"
proof
  assume a: "\<not> re_search False url_pattern s"
  show "run (Some []) s \<noteq> None"
  proof
    assume "run (Some []) s = None"
    then obtain u v where "[] @ s = u @ v" "url_at v" using run_complete by blast
    then have "re_search False url_pattern s"
      by (auto simp: re_search_iff ends_url_iff)
    then show False using a by simp
  qed
next
  assume "run (Some []) s \<noteq> None"
  then show "\<not> re_search False url_pattern s" by (rule run_no_url)
qed

text \<open>
  C10, as amended. The rewritten body holds no match of the link pattern, \<open>http://\<close>
  or \<open>https://\<close> followed by a character that is not whitespace: the link removal
  replaces every match in the text it is given, which is the body after the removal of
  sensitive instructions, so that none is left, and neither the later replacements nor
  the closing bring one into a text that has none. A link of the input that lies in a
  span of sensitive instructions is removed with that span, by the marker of that step.
\<close>

theorem rewritten_body_has_no_link:
  "\<not> re_search False url_pattern (snd (rewrite_to_safe subject body))
   \<and> \<not> re_search False url_pattern (re_sub False url_pattern ''[link removed]'' t)
   \<and> (\<not> re_search False url_pattern t
        \<longrightarrow> \<not> re_search False url_pattern (replace_all body_replacements t)
          \<and> \<not> re_search False url_pattern (str_strip t @ closing))"
proof (intro conjI impI)
  show "\<not> re_search False url_pattern (snd (rewrite_to_safe subject body))"
  proof (rule run_no_url)
    show "run (Some []) (snd (rewrite_to_safe subject body)) \<noteq> None"
      using run_softened_body [of body] run_strip_closing [of "softened_body body"]
      by (simp add: rewrite_to_safe_def Let_def)
  qed
  show "\<not> re_search False url_pattern (re_sub False url_pattern ''[link removed]'' t)"
    by (rule run_no_url, rule run_sub_url) (simp_all add: pending_Nil)
next
  assume "\<not> re_search False url_pattern t"
  then have r: "run (Some []) t \<noteq> None" by (simp add: no_url_iff)
  show "\<not> re_search False url_pattern (replace_all body_replacements t)"
    using r by (intro run_no_url run_body_replacements)
  show "\<not> re_search False url_pattern (str_strip t @ closing)"
    using r by (intro run_no_url run_strip_closing)
qed

theorem rewritten_body_has_no_link_witness:
  "re_search False url_pattern ''see https://a.b/c?d now''
   \<and> snd (rewrite_to_safe ''Hi'' ''see https://a.b/c?d now'')
       = ''see [link removed] now'' @ [CHR 0x0A, CHR 0x0A] @ ''Thank you,'' @ [CHR 0x0A]
         @ ''Customer Support Team''
   \<and> \<not> re_search False url_pattern (snd (rewrite_to_safe ''Hi'' ''see https://a.b/c?d now''))
   \<and> \<not> re_search False url_pattern ''http:// urgent''
   \<and> \<not> re_search False url_pattern (replace_all body_replacements ''http:// urgent'')"
proof -
  have a: "re_search False url_pattern ''see https://a.b/c?d now''"
    by code_simp
  have b: "snd (rewrite_to_safe ''Hi'' ''see https://a.b/c?d now'')
       = ''see [link removed] now'' @ [CHR 0x0A, CHR 0x0A] @ ''Thank you,'' @ [CHR 0x0A]
         @ ''Customer Support Team''"
    by code_simp
  have c: "\<not> re_search False url_pattern ''http:// urgent''"
    by code_simp
  note t = rewritten_body_has_no_link [of "''Hi''" "''see https://a.b/c?d now''" "''http:// urgent''"]
  show ?thesis using a b c t by blast
qed

text \<open>
  C10 as stated fails where it says that every link of the input is replaced by
  \<open>[link removed]\<close>: the removal of sensitive instructions runs first and takes the
  link with it.
\<close>

theorem link_removed_with_instructions:
  "re_search False url_pattern ''click link http://x/login''
   \<and> snd (rewrite_to_safe ''Hi'' ''click link http://x/login'')
       = ''[removed sensitive instructions]'' @ [CHR 0x0A, CHR 0x0A] @ ''Thank you,''
         @ [CHR 0x0A] @ ''Customer Support Team''
   \<and> \<not> str_in ''[link removed]'' (snd (rewrite_to_safe ''Hi'' ''click link http://x/login''))"
proof -
  have a: "re_search False url_pattern ''click link http://x/login''"
    by code_simp
  have b: "snd (rewrite_to_safe ''Hi'' ''click link http://x/login'')
       = ''[removed sensitive instructions]'' @ [CHR 0x0A, CHR 0x0A] @ ''Thank you,''
         @ [CHR 0x0A] @ ''Customer Support Team''"
    by code_simp
  have c: "\<not> str_in ''[link removed]'' (''[removed sensitive instructions]''
       @ [CHR 0x0A, CHR 0x0A] @ ''Thank you,'' @ [CHR 0x0A] @ ''Customer Support Team'')"
    by code_simp
  have d: "\<not> str_in ''[link removed]'' (snd (rewrite_to_safe ''Hi'' ''click link http://x/login''))"
    unfolding b by (rule c)
  show ?thesis by (intro conjI a b d)
qed

section \<open>The removal of sensitive instructions\<close>

lemma ci_prefix_Nil: "ci_prefix [] s"
  by (simp add: ci_prefix_def str_lower_def)

lemma ci_prefix_Cons_Nil: "\<not> ci_prefix (c # w) []"
  by (simp add: ci_prefix_def str_lower_def)

lemma ci_prefix_Cons_Cons:
  "ci_prefix (c # w) (x # xs) \<longleftrightarrow> lower_char x = lower_char c \<and> ci_prefix w xs"
  by (auto simp: ci_prefix_def str_lower_def)

lemma ends_Seq_lit_eq:
  "ends True (Seq (lit w) r) s = (if ci_prefix w s then ends True r (drop (length w) s) else [])"
proof (induction w arbitrary: s)
  case Nil
  then show ?case by (simp only: ends_Seq_lit_Nil) (simp add: ci_prefix_Nil)
next
  case (Cons c w)
  show ?case
  proof (cases s)
    case Nil
    then show ?thesis by (simp only: ends_Seq_lit_Cons) (simp add: ci_prefix_Cons_Nil)
  next
    case (Cons x xs)
    then show ?thesis
      using Cons.IH [of xs]
      by (simp only: ends_Seq_lit_Cons) (simp add: ci_prefix_Cons_Cons)
  qed
qed

lemma ends_lit_eq:
  "ends True (lit w) s = (if ci_prefix w s then [drop (length w) s] else [])"
  using ends_Seq_lit_eq [of w Eps s] by (simp only: ends_Seq_Eps) simp

lemma set_star_ends:
  "set (star_ends P s) = {t. \<exists>u. s = u @ t \<and> (\<forall>c \<in> set u. P c)}"
proof (induction s)
  case Nil
  then show ?case by auto
next
  case (Cons c cs)
  show ?case
  proof (cases "P c")
    case True
    have "{t. \<exists>u. c # cs = u @ t \<and> (\<forall>c \<in> set u. P c)}
            = insert (c # cs) {t. \<exists>u. cs = u @ t \<and> (\<forall>c \<in> set u. P c)}"
      using True by (auto simp: Cons_eq_append_conv)
    then show ?thesis using True Cons.IH by simp
  next
    case False
    have "{t. \<exists>u. c # cs = u @ t \<and> (\<forall>c \<in> set u. P c)} = {c # cs}"
      using False by (auto simp: Cons_eq_append_conv)
    then show ?thesis using False by simp
  qed
qed

lemma ends_Seq_any_text:
  "ends True (Seq any_text r) s \<noteq> []
     \<longleftrightarrow> (\<exists>u t. s = u @ t \<and> CHR 0x0A \<notin> set u \<and> ends True r t \<noteq> [])"
proof -
  have "ends True (Seq any_text r) s \<noteq> []
          \<longleftrightarrow> (\<exists>t \<in> set (star_ends (cls_ok True Dot) s). ends True r t \<noteq> [])"
    by (simp add: any_text_def)
  also have "\<dots> \<longleftrightarrow> (\<exists>u t. s = u @ t \<and> CHR 0x0A \<notin> set u \<and> ends True r t \<noteq> [])"
    unfolding set_star_ends by auto
  finally show ?thesis .
qed

lemma patterns_to_remove_spans:
  "patterns_to_remove = map span_rx [click_anchors, enter_anchors, provide_anchors]"
  by (simp add: patterns_to_remove_def click_anchors_def enter_anchors_def provide_anchors_def)

lemma starts_Cons:
  "starts (alts # later) s
     \<longleftrightarrow> (\<exists>a \<in> set alts. ci_prefix a s \<and> follows later (drop (length a) s))"
  by (simp add: starts_def)

lemma follows_iff:
  assumes "\<forall>a \<in> set alts. a \<noteq> []"
  shows "follows (alts # later) s
           \<longleftrightarrow> (\<exists>u t. s = u @ t \<and> CHR 0x0A \<notin> set u \<and> starts (alts # later) t)"
proof (induction s)
  case Nil
  have "\<not> starts (alts # later) []"
    using assms by (auto simp: starts_Cons neq_Nil_conv ci_prefix_Cons_Nil)
  then show ?case by simp
next
  case (Cons c cs)
  show ?case
  proof
    assume "follows (alts # later) (c # cs)"
    then consider "starts (alts # later) (c # cs)"
      | "c \<noteq> CHR 0x0A" "follows (alts # later) cs"
      by (auto simp: starts_Cons)
    then show "\<exists>u t. c # cs = u @ t \<and> CHR 0x0A \<notin> set u \<and> starts (alts # later) t"
    proof cases
      case 1
      then have "c # cs = [] @ (c # cs) \<and> CHR 0x0A \<notin> set [] \<and> starts (alts # later) (c # cs)"
        by simp
      then show ?thesis by blast
    next
      case 2
      then obtain u t where "cs = u @ t" "CHR 0x0A \<notin> set u" "starts (alts # later) t"
        using Cons.IH by blast
      then have "c # cs = (c # u) @ t \<and> CHR 0x0A \<notin> set (c # u) \<and> starts (alts # later) t"
        using 2(1) by simp
      then show ?thesis by blast
    qed
  next
    assume "\<exists>u t. c # cs = u @ t \<and> CHR 0x0A \<notin> set u \<and> starts (alts # later) t"
    then obtain u t where ut: "c # cs = u @ t" "CHR 0x0A \<notin> set u" "starts (alts # later) t"
      by blast
    show "follows (alts # later) (c # cs)"
    proof (cases u)
      case Nil
      then have "starts (alts # later) (c # cs)" using ut by simp
      then show ?thesis by (auto simp: starts_Cons)
    next
      case (Cons d u')
      then have "cs = u' @ t" "CHR 0x0A \<notin> set u'" "c \<noteq> CHR 0x0A" using ut by auto
      then have "follows (alts # later) cs" using ut(3) Cons.IH by blast
      then show ?thesis using \<open>c \<noteq> CHR 0x0A\<close> by simp
    qed
  qed
qed

lemma ends_Seq_Alt: "ends ic (Seq (Alt a b) r) s = ends ic (Seq a r) s @ ends ic (Seq b r) s"
  by simp

lemma ends_Seq_alt_rx:
  assumes "alts \<noteq> []"
  shows "ends True (Seq (alt_rx alts) r) s \<noteq> []
           \<longleftrightarrow> (\<exists>a \<in> set alts. ci_prefix a s \<and> ends True r (drop (length a) s) \<noteq> [])"
  using assms
proof (induction alts rule: alt_rx.induct)
  case 1
  then show ?case by simp
next
  case (2 a)
  show ?case by (simp add: ends_Seq_lit_eq del: ends.simps)
next
  case (3 a b bs)
  have "ends True (Seq (alt_rx (a # b # bs)) r) s
          = ends True (Seq (lit a) r) s @ ends True (Seq (alt_rx (b # bs)) r) s"
    by simp
  then show ?case using 3 by (simp add: ends_Seq_lit_eq del: ends.simps)
qed

lemma ends_alt_rx:
  assumes "alts \<noteq> []"
  shows "ends True (alt_rx alts) s \<noteq> [] \<longleftrightarrow> (\<exists>a \<in> set alts. ci_prefix a s)"
  using ends_Seq_alt_rx [OF assms, of Eps s] by (simp only: ends_Seq_Eps) simp

lemma starts_span_rx:
  assumes "good_anchors anchors"
  shows "ends True (span_rx anchors) s \<noteq> [] \<longleftrightarrow> starts anchors s"
  using assms
proof (induction anchors arbitrary: s rule: span_rx.induct)
  case 1
  then show ?case by (simp add: good_anchors_def)
next
  case (2 alts)
  then have "alts \<noteq> []" by (simp add: good_anchors_def)
  then show ?case using ends_alt_rx by (simp add: starts_Cons)
next
  case (3 alts b later)
  then have g: "alts \<noteq> []" "good_anchors (b # later)" "\<forall>a \<in> set b. a \<noteq> []"
    by (auto simp: good_anchors_def)
  have ih: "\<And>t. ends True (span_rx (b # later)) t \<noteq> [] \<longleftrightarrow> starts (b # later) t"
    using 3 g(2) by blast
  have "ends True (span_rx (alts # b # later)) s \<noteq> []
          \<longleftrightarrow> (\<exists>a \<in> set alts. ci_prefix a s
                \<and> ends True (Seq any_text (span_rx (b # later))) (drop (length a) s) \<noteq> [])"
    unfolding span_rx.simps by (rule ends_Seq_alt_rx [OF g(1)])
  also have "\<dots> \<longleftrightarrow> (\<exists>a \<in> set alts. ci_prefix a s \<and> follows (b # later) (drop (length a) s))"
    unfolding ends_Seq_any_text ih follows_iff [OF g(3)] ..
  finally show ?case by (simp add: starts_Cons)
qed

lemma nl_free_consumed:
  "nl_free r \<Longrightarrow> rest \<in> set (ends True r s) \<Longrightarrow> \<exists>x. s = x @ rest \<and> CHR 0x0A \<notin> set x"
proof (induction r arbitrary: s rest)
  case Eps
  then show ?case by simp
next
  case (One k)
  then obtain c where "s = c # rest" "cls_ok True k c"
    by (auto split: list.splits if_splits)
  then have "s = [c] @ rest \<and> CHR 0x0A \<notin> set [c]" using One.prems(1) by auto
  then show ?case by blast
next
  case (Star k)
  then obtain u where "s = u @ rest" "\<forall>c \<in> set u. cls_ok True k c"
    by (auto simp: set_star_ends)
  then show ?case using Star.prems(1) by auto
next
  case (Plus k)
  then obtain c cs u where "s = c # cs" "cls_ok True k c" "cs = u @ rest"
      "\<forall>c \<in> set u. cls_ok True k c"
    by (auto simp: set_star_ends split: list.splits if_splits)
  then have "s = (c # u) @ rest \<and> CHR 0x0A \<notin> set (c # u)" using Plus.prems(1) by auto
  then show ?case by blast
next
  case (Opt k)
  then consider "rest = s" | c where "s = c # rest" "cls_ok True k c"
    by (auto split: list.splits if_splits)
  then show ?case
  proof cases
    case 1
    then show ?thesis by simp
  next
    case 2
    then have "s = [c] @ rest \<and> CHR 0x0A \<notin> set [c]" using Opt.prems(1) by auto
    then show ?thesis by blast
  qed
next
  case (Seq a b)
  then obtain mid where mid: "mid \<in> set (ends True a s)" "rest \<in> set (ends True b mid)"
    by auto
  obtain x1 where x1: "s = x1 @ mid" "CHR 0x0A \<notin> set x1"
    using Seq.IH(1) [OF _ mid(1)] Seq.prems(1) by auto
  obtain x2 where x2: "mid = x2 @ rest" "CHR 0x0A \<notin> set x2"
    using Seq.IH(2) [OF _ mid(2)] Seq.prems(1) by auto
  have "s = (x1 @ x2) @ rest \<and> CHR 0x0A \<notin> set (x1 @ x2)" using x1 x2 by simp
  then show ?case by blast
next
  case (Alt a b)
  then show ?case by auto
qed

lemma re_sub_rep:
  assumes nl: "nl_free r"
    and sh: "\<And>s rest. rest \<in> set (ends True r s) \<Longrightarrow> length rest < length s"
  shows "rep (\<lambda>v. ends True r v \<noteq> []) s (re_sub True r marker s)"
proof (induction s rule: length_induct)
  case (1 s)
  show ?case
  proof (cases "ends True r s")
    case Nil
    show ?thesis
    proof (cases s)
      case Nil
      then show ?thesis
        using \<open>ends True r s = []\<close> by (simp add: re_sub_Nil_nomatch rep_Nil)
    next
      case (Cons c cs)
      have "rep (\<lambda>v. ends True r v \<noteq> []) cs (re_sub True r marker cs)"
        using "1.IH" Cons by simp
      then have "rep (\<lambda>v. ends True r v \<noteq> []) (c # cs) (c # re_sub True r marker cs)"
        using \<open>ends True r s = []\<close> Cons by (intro rep_copy) simp_all
      then show ?thesis
        using \<open>ends True r s = []\<close> Cons by (simp add: re_sub_nomatch)
    qed
  next
    case (Cons rest alts)
    then have mem: "rest \<in> set (ends True r s)" by simp
    have l: "length rest < length s" using mem by (rule sh)
    obtain x where x: "s = x @ rest" "CHR 0x0A \<notin> set x"
      using nl_free_consumed [OF nl mem] by blast
    have "rep (\<lambda>v. ends True r v \<noteq> []) rest (re_sub True r marker rest)"
      using "1.IH" l by simp
    then have "rep (\<lambda>v. ends True r v \<noteq> []) (x @ rest) (marker @ re_sub True r marker rest)"
      using x Cons by (intro rep_mark) simp_all
    then show ?thesis
      using re_sub_match [OF Cons l] x(1) by simp
  qed
qed

lemma plain_good: "plain_anchors anchors \<Longrightarrow> good_anchors anchors"
  by (auto simp: plain_anchors_def good_anchors_def plain_word_def)

lemma plain_anchors_Cons:
  "plain_anchors (alts # later) \<Longrightarrow> later \<noteq> [] \<Longrightarrow> plain_anchors later"
  by (auto simp: plain_anchors_def)

lemma str_in_iff: "str_in p s \<longleftrightarrow> (\<exists>u w. s = u @ p @ w)"
proof (induction s)
  case Nil
  then show ?case by auto
next
  case (Cons c cs)
  show ?case
  proof
    assume "str_in p (c # cs)"
    then consider "prefix p (c # cs)" | "str_in p cs" by auto
    then show "\<exists>u w. c # cs = u @ p @ w"
    proof cases
      case 1
      then obtain w where "c # cs = p @ w" by (auto simp: prefix_def)
      then have "c # cs = [] @ p @ w" by simp
      then show ?thesis by blast
    next
      case 2
      then obtain u w where "cs = u @ p @ w" using Cons.IH by blast
      then have "c # cs = (c # u) @ p @ w" by simp
      then show ?thesis by blast
    qed
  next
    assume "\<exists>u w. c # cs = u @ p @ w"
    then obtain u w where uw: "c # cs = u @ p @ w" by blast
    show "str_in p (c # cs)"
    proof (cases u)
      case Nil
      then have "prefix p (c # cs)" using uw by (simp add: prefix_def)
      then show ?thesis by simp
    next
      case (Cons d u')
      then have "cs = u' @ p @ w" using uw by simp
      then have "str_in p cs" using Cons.IH by blast
      then show ?thesis by simp
    qed
  qed
qed

lemma lower_marker: "str_lower marker = marker"
  by (simp add: marker_def str_lower_def lower_char_def is_upper_cp_def)

lemma marker_head: "\<exists>t. marker = CHR ''['' # t"
  by (simp add: marker_def)

lemma last_marker: "last marker = CHR '']''"
  by (simp add: marker_def)

lemma lower_bracket:
  "lower_char (CHR ''['') = CHR ''[''" "lower_char (CHR '']'') = CHR '']''"
  by (simp_all add: lower_char_def is_upper_cp_def)

lemma no_word_in_marker:
  assumes v: "suffix v marker" "v \<noteq> []" and a: "plain_word a"
  shows "\<not> ci_prefix a (v @ t)"
proof
  assume "ci_prefix a (v @ t)"
  then have "prefix (str_lower a) (str_lower v @ str_lower t)"
    by (simp add: ci_prefix_def str_lower_def)
  then consider "prefix (str_lower a) (str_lower v)"
    | us where "str_lower a = str_lower v @ us"
    by (auto simp: prefix_append)
  then show False
  proof cases
    case 1
    obtain u where u: "marker = u @ v" using v(1) by (auto simp: suffix_def)
    obtain w where w: "str_lower v = str_lower a @ w" using 1 by (auto simp: prefix_def)
    have "str_lower marker = str_lower u @ str_lower v"
      by (subst u) (simp add: str_lower_def)
    then have "str_lower marker = str_lower u @ str_lower a @ w"
      using w by simp
    then have "str_in (str_lower a) marker"
      unfolding lower_marker str_in_iff by blast
    then show False using a by (simp add: plain_word_def)
  next
    case 2
    obtain u where "marker = u @ v" using v(1) by (auto simp: suffix_def)
    then have "last marker = last v" using v(2) by (metis last_appendR)
    then have "last v = CHR '']''" using last_marker by simp
    then have "CHR '']'' \<in> set v" using v(2) last_in_set by metis
    then have "lower_char (CHR '']'') \<in> set (str_lower v)" by (simp add: str_lower_def)
    then have "CHR '']'' \<in> set (str_lower a)" using 2 lower_bracket(2) by simp
    then show False using a by (simp add: plain_word_def)
  qed
qed

lemma word_transport:
  "rep P s t \<Longrightarrow> ci_prefix a t \<Longrightarrow> CHR ''['' \<notin> set (str_lower a)
     \<Longrightarrow> ci_prefix a s \<and> rep P (drop (length a) s) (drop (length a) t)"
proof (induction a arbitrary: s t)
  case Nil
  then show ?case by (simp add: ci_prefix_Nil)
next
  case (Cons a0 a')
  from Cons.prems(2) obtain t0 t1 where t: "t = t0 # t1" "lower_char t0 = lower_char a0"
      "ci_prefix a' t1"
    by (cases t) (auto simp: ci_prefix_Cons_Nil ci_prefix_Cons_Cons)
  have a': "CHR ''['' \<notin> set (str_lower a')" using Cons.prems(3) by (simp add: str_lower_def)
  have t0: "t0 \<noteq> CHR ''[''"
    using t(2) Cons.prems(3) lower_bracket(1) by (auto simp: str_lower_def)
  from Cons.prems(1) show ?case
  proof (cases rule: rep.cases)
    case rep_Nil
    then show ?thesis using t(1) by simp
  next
    case (rep_copy c s1 t1')
    then have "rep P s1 t1" using t(1) by simp
    then have "ci_prefix a' s1 \<and> rep P (drop (length a') s1) (drop (length a') t1)"
      using Cons.IH t(3) a' by blast
    then show ?thesis using rep_copy t by (simp add: ci_prefix_Cons_Cons)
  next
    case (rep_mark x s2 t2)
    obtain mt where "marker = CHR ''['' # mt" using marker_head by blast
    then have "t0 # t1 = CHR ''['' # mt @ t2" using rep_mark(2) t(1) by simp
    then show ?thesis using t0 by simp
  qed
qed

lemma follows_skip:
  "CHR 0x0A \<notin> set x \<Longrightarrow> follows anchors s \<Longrightarrow> follows anchors (x @ s)"
proof (induction x)
  case Nil
  then show ?case by simp
next
  case (Cons c x)
  then have "follows anchors (x @ s)" "c \<noteq> CHR 0x0A" by auto
  then show ?case by (cases anchors) simp_all
qed

lemma follows_marker_skip:
  assumes "\<forall>a \<in> set alts. plain_word a"
  shows "suffix v marker \<Longrightarrow> follows (alts # later) (v @ t) \<Longrightarrow> follows (alts # later) t"
proof (induction v)
  case Nil
  then show ?case by simp
next
  case (Cons c v)
  have sv: "suffix v marker" using Cons.prems(1) by (rule suffix_ConsD)
  have "\<not> (\<exists>a \<in> set alts. ci_prefix a ((c # v) @ t))"
    using no_word_in_marker [OF Cons.prems(1)] assms by blast
  then have "follows (alts # later) (v @ t)" using Cons.prems(2) by auto
  then show ?case using Cons.IH sv by blast
qed

lemma follows_transport:
  "rep P s t \<Longrightarrow> follows anchors t
     \<Longrightarrow> \<forall>alts \<in> set anchors. \<forall>a \<in> set alts. plain_word a
     \<Longrightarrow> follows anchors s"
proof (induction t arbitrary: anchors s rule: length_induct)
  case (1 t)
  show ?case
  proof (cases anchors)
    case Nil
    then show ?thesis by simp
  next
    case (Cons alts later)
    have pw: "\<forall>a \<in> set alts. plain_word a"
      and pl: "\<forall>alts \<in> set later. \<forall>a \<in> set alts. plain_word a"
      using "1.prems"(3) Cons by auto
    obtain c cs where t: "t = c # cs" using "1.prems"(2) Cons by (cases t) auto
    consider a where "a \<in> set alts" "ci_prefix a t" "follows later (drop (length a) t)"
      | "c \<noteq> CHR 0x0A" "follows (alts # later) cs"
      using "1.prems"(2) Cons t by auto
    then show ?thesis
    proof cases
      case 1
      have pa: "plain_word a" using pw 1(1) by blast
      then have w: "ci_prefix a s" "rep P (drop (length a) s) (drop (length a) t)"
        using word_transport [OF "1.prems"(1) 1(2)] by (auto simp: plain_word_def)
      have "length (drop (length a) t) < length t" using pa t by (auto simp: plain_word_def)
      then have f: "follows later (drop (length a) s)"
        using "1.IH" [rule_format, OF _ w(2) 1(3)] pl by blast
      obtain a0 a' where a0: "a = a0 # a'" using pa by (cases a) (auto simp: plain_word_def)
      have "s \<noteq> []" using w(1) unfolding a0 by (auto simp: ci_prefix_Cons_Nil)
      then obtain d ds where s: "s = d # ds" by (cases s) auto
      have "\<exists>a \<in> set alts. ci_prefix a (d # ds) \<and> follows later (drop (length a) (d # ds))"
        using w(1) f 1(1) s by blast
      then show ?thesis unfolding Cons s by simp
    next
      case 2
      from "1.prems"(1) show ?thesis
      proof (cases rule: rep.cases)
        case rep_Nil
        then show ?thesis using t by simp
      next
        case (rep_copy c' s1 t1)
        then have "rep P s1 cs" "c' = c" using t by auto
        then have "follows (alts # later) s1"
          using "1.IH" t 2(2) "1.prems"(3) Cons by auto
        then show ?thesis using rep_copy \<open>c' = c\<close> 2(1) Cons by simp
      next
        case (rep_mark x s2 t2)
        have "follows (alts # later) (marker @ t2)" using "1.prems"(2) Cons rep_mark by simp
        then have "follows (alts # later) t2"
          using follows_marker_skip [OF pw, of marker later t2] by simp
        moreover have "length t2 < length t" using rep_mark by (simp add: marker_def)
        ultimately have "follows (alts # later) s2"
          using "1.IH" rep_mark(5) "1.prems"(3) Cons by blast
        then show ?thesis using rep_mark follows_skip Cons by simp
      qed
    qed
  qed
qed

lemma starts_transport:
  assumes "rep P s t" and "starts anchors t" and "plain_anchors anchors"
  shows "starts anchors s"
proof -
  obtain alts later where an: "anchors = alts # later"
    using assms(3) by (cases anchors) (auto simp: plain_anchors_def)
  have pw: "\<forall>a \<in> set alts. plain_word a"
    and pl: "\<forall>alts \<in> set later. \<forall>a \<in> set alts. plain_word a"
    using assms(3) an by (auto simp: plain_anchors_def)
  obtain a where a: "a \<in> set alts" "ci_prefix a t" "follows later (drop (length a) t)"
    using assms(2) an by (auto simp: starts_Cons)
  have "CHR ''['' \<notin> set (str_lower a)" using pw a(1) by (auto simp: plain_word_def)
  then have w: "ci_prefix a s" "rep P (drop (length a) s) (drop (length a) t)"
    using word_transport [OF assms(1) a(2)] by auto
  have "follows later (drop (length a) s)"
    using follows_transport [OF w(2) a(3) pl] .
  then show ?thesis using an a(1) w(1) by (auto simp: starts_Cons)
qed

lemma has_line_span_iff:
  "has_line_span anchors s \<longleftrightarrow> (\<exists>v. suffix v s \<and> starts anchors v)"
proof (induction s)
  case Nil
  then show ?case by simp
next
  case (Cons c cs)
  then show ?case by (auto simp: suffix_Cons)
qed

lemma plain_word_no_prefix_Nil: "plain_word a \<Longrightarrow> \<not> ci_prefix a []"
  by (cases a) (auto simp: plain_word_def ci_prefix_Cons_Nil)

lemma starts_Nil: "plain_anchors anchors \<Longrightarrow> \<not> starts anchors []"
  by (cases anchors) (auto simp: plain_anchors_def starts_Cons plain_word_no_prefix_Nil)

text \<open>
  Replacing the matches of one pattern leaves no span of a kind of which every span in
  the input is a match of that pattern.
\<close>

lemma no_span_after:
  assumes pa: "plain_anchors anchors"
  shows "rep P s t \<Longrightarrow> (\<forall>v. suffix v s \<longrightarrow> starts anchors v \<longrightarrow> P v)
           \<Longrightarrow> \<not> has_line_span anchors t"
proof (induction rule: rep.induct)
  case rep_Nil
  then show ?case using starts_Nil [OF pa] by simp
next
  case (rep_copy c s t)
  have "\<not> has_line_span anchors t"
    using rep_copy.IH rep_copy.prems by (simp add: suffix_Cons)
  moreover have "\<not> starts anchors (c # t)"
  proof
    assume "starts anchors (c # t)"
    moreover have "rep P (c # s) (c # t)" using rep_copy.hyps by (intro rep.rep_copy)
    ultimately have "starts anchors (c # s)" using starts_transport pa by blast
    then show False using rep_copy.prems rep_copy.hyps(1) by auto
  qed
  ultimately show ?case by simp
next
  case (rep_mark x s t)
  have n: "\<not> has_line_span anchors t"
    using rep_mark.IH rep_mark.prems by (simp add: suffix_append)
  obtain alts later where an: "anchors = alts # later"
    using pa by (cases anchors) (auto simp: plain_anchors_def)
  have pw: "\<forall>a \<in> set alts. plain_word a" using pa an by (auto simp: plain_anchors_def)
  show ?case
  proof
    assume "has_line_span anchors (marker @ t)"
    then obtain v where v: "suffix v (marker @ t)" "starts anchors v"
      using has_line_span_iff by blast
    from v(1) have "suffix v t \<or> (\<exists>v'. v = v' @ t \<and> suffix v' marker)"
      by (simp only: suffix_append)
    then show False
    proof
      assume "suffix v t"
      then show False using n v(2) has_line_span_iff by blast
    next
      assume "\<exists>v'. v = v' @ t \<and> suffix v' marker"
      then obtain v' where v': "v = v' @ t" "suffix v' marker" by blast
      show False
      proof (cases "v' = []")
        case True
        then have "suffix v t" using v'(1) by simp
        then show False using n v(2) has_line_span_iff by blast
      next
        case False
        obtain a where "a \<in> set alts" "ci_prefix a (v' @ t)"
          using v(2) an v'(1) by (auto simp: starts_Cons)
        then show False using no_word_in_marker [OF v'(2) False] pw by blast
      qed
    qed
  qed
qed

lemma str_in_self: "str_in p (p @ t)"
  unfolding str_in_iff by (metis append_Nil)

lemma str_in_Cons: "str_in p t \<Longrightarrow> str_in p (c # t)"
  by simp

lemma rep_changed: "rep P s t \<Longrightarrow> t = s \<or> str_in marker t"
proof (induction rule: rep.induct)
  case rep_Nil
  then show ?case by simp
next
  case (rep_copy c s t)
  then show ?case using str_in_Cons by blast
next
  case (rep_mark x s t)
  then show ?case using str_in_self by blast
qed

lemma rep_prefix: "rep P s t \<Longrightarrow> prefix w s \<Longrightarrow> prefix w t \<or> str_in marker t"
proof (induction arbitrary: w rule: rep.induct)
  case rep_Nil
  then show ?case by simp
next
  case (rep_copy c s t)
  show ?case
  proof (cases w)
    case Nil
    then show ?thesis by simp
  next
    case (Cons d w')
    then have "d = c" "prefix w' s" using rep_copy.prems by auto
    then have "prefix w' t \<or> str_in marker t" using rep_copy.IH by blast
    then show ?thesis using Cons \<open>d = c\<close> str_in_Cons by auto
  qed
next
  case (rep_mark x s t)
  then show ?case using str_in_self by blast
qed

lemma rep_keeps_marker: "rep P s t \<Longrightarrow> str_in marker s \<Longrightarrow> str_in marker t"
proof (induction rule: rep.induct)
  case rep_Nil
  then show ?case by simp
next
  case (rep_copy c s t)
  from rep_copy.prems consider "prefix marker (c # s)" | "str_in marker s" by auto
  then show ?case
  proof cases
    case 1
    have "rep P (c # s) (c # t)" using rep_copy.hyps by (intro rep.rep_copy)
    then have "prefix marker (c # t) \<or> str_in marker (c # t)" using 1 by (rule rep_prefix)
    then show ?thesis by auto
  next
    case 2
    then show ?thesis using rep_copy.IH str_in_Cons by blast
  qed
next
  case (rep_mark x s t)
  then show ?case using str_in_self by blast
qed

lemma rep_marks_match:
  assumes "\<not> P []"
  shows "rep P s t \<Longrightarrow> \<exists>v. suffix v s \<and> P v \<Longrightarrow> str_in marker t"
proof (induction rule: rep.induct)
  case rep_Nil
  then show ?case using assms by simp
next
  case (rep_copy c s t)
  then obtain v where v: "suffix v (c # s)" "P v" by blast
  then have "suffix v s" using rep_copy.hyps(1) by (auto simp: suffix_Cons)
  then show ?case using rep_copy.IH v(2) str_in_Cons by blast
next
  case (rep_mark x s t)
  then show ?case using str_in_self by blast
qed

lemma click_pattern: "span_pattern click_anchors"
proof -
  have "plain_anchors click_anchors" by code_simp
  moreover have "nl_free (span_rx click_anchors)" by code_simp
  moreover have "\<exists>r. span_rx click_anchors = Seq (lit (CHR ''c'' # ''lick'')) r"
    by (simp add: click_anchors_def del: lit.simps)
  then have "\<exists>c w r. span_rx click_anchors = Seq (lit (c # w)) r"
    by blast
  ultimately show ?thesis by (simp add: span_pattern_def)
qed

lemma enter_pattern: "span_pattern enter_anchors"
proof -
  have "plain_anchors enter_anchors" by code_simp
  moreover have "nl_free (span_rx enter_anchors)" by code_simp
  moreover have "\<exists>r. span_rx enter_anchors = Seq (lit (CHR ''e'' # ''nter'')) r"
    by (simp add: enter_anchors_def del: lit.simps)
  then have "\<exists>c w r. span_rx enter_anchors = Seq (lit (c # w)) r"
    by blast
  ultimately show ?thesis by (simp add: span_pattern_def)
qed

lemma provide_pattern: "span_pattern provide_anchors"
proof -
  have "plain_anchors provide_anchors" by code_simp
  moreover have "nl_free (span_rx provide_anchors)" by code_simp
  moreover have "\<exists>r. span_rx provide_anchors = Seq (lit (CHR ''p'' # ''rovide'')) r"
    by (simp add: provide_anchors_def del: lit.simps)
  then have "\<exists>c w r. span_rx provide_anchors = Seq (lit (c # w)) r"
    by blast
  ultimately show ?thesis by (simp add: span_pattern_def)
qed

lemma search_span:
  assumes "span_pattern b"
  shows "re_search True (span_rx b) s \<longleftrightarrow> has_line_span b s"
proof -
  have "good_anchors b" using assms plain_good by (simp add: span_pattern_def)
  then show ?thesis
    unfolding re_search_iff has_line_span_iff
    by (simp add: starts_span_rx suffix_def) blast
qed

lemma pass_rep:
  assumes "span_pattern b"
  shows "rep (\<lambda>v. ends True (span_rx b) v \<noteq> []) s (re_sub True (span_rx b) marker s)"
proof (rule re_sub_rep)
  show "nl_free (span_rx b)" using assms by (simp add: span_pattern_def)
next
  fix s rest
  assume m: "rest \<in> set (ends True (span_rx b) s)"
  obtain c w r where "span_rx b = Seq (lit (c # w)) r"
    using assms by (auto simp: span_pattern_def)
  then show "length rest < length s" using m ends_Seq_lit_shorter by simp
qed

lemma pass_removes:
  assumes "span_pattern b"
  shows "\<not> has_line_span b (re_sub True (span_rx b) marker s)"
proof (rule no_span_after [OF _ pass_rep [OF assms]])
  show "plain_anchors b" using assms by (simp add: span_pattern_def)
  have "good_anchors b" using assms plain_good by (simp add: span_pattern_def)
  then show "\<forall>v. suffix v s \<longrightarrow> starts b v \<longrightarrow> ends True (span_rx b) v \<noteq> []"
    by (simp add: starts_span_rx)
qed

lemma pass_keeps_free:
  assumes "span_pattern b" and "plain_anchors a" and "\<not> has_line_span a s"
  shows "\<not> has_line_span a (re_sub True (span_rx b) marker s)"
proof (rule no_span_after [OF assms(2) pass_rep [OF assms(1)]])
  show "\<forall>v. suffix v s \<longrightarrow> starts a v \<longrightarrow> ends True (span_rx b) v \<noteq> []"
    using assms(3) has_line_span_iff by blast
qed

lemma pass_marks:
  assumes "span_pattern b" and "has_line_span b s"
  shows "str_in marker (re_sub True (span_rx b) marker s)"
proof (rule rep_marks_match [OF _ pass_rep [OF assms(1)]])
  have g: "good_anchors b" "plain_anchors b"
    using assms(1) plain_good by (simp_all add: span_pattern_def)
  show "\<not> ends True (span_rx b) [] \<noteq> []"
    using starts_span_rx [OF g(1), of "[]"] starts_Nil [OF g(2)] by simp
  obtain v where "suffix v s" "starts b v" using assms(2) has_line_span_iff by blast
  then show "\<exists>v. suffix v s \<and> ends True (span_rx b) v \<noteq> []"
    using starts_span_rx [OF g(1)] by blast
qed

lemma pass_keeps_marker:
  assumes "span_pattern b" and "str_in marker s"
  shows "str_in marker (re_sub True (span_rx b) marker s)"
  using rep_keeps_marker [OF pass_rep [OF assms(1)] assms(2)] .

lemma pass_changed:
  assumes "span_pattern b"
  shows "re_sub True (span_rx b) marker s = s \<or> str_in marker (re_sub True (span_rx b) marker s)"
  using rep_changed [OF pass_rep [OF assms]] .

lemma remove_all_passes:
  "remove_all patterns_to_remove body
     = re_sub True (span_rx provide_anchors) marker
         (re_sub True (span_rx enter_anchors) marker
            (re_sub True (span_rx click_anchors) marker body))"
  by (simp add: patterns_to_remove_spans marker_def del: span_rx.simps)

text \<open>
  C6, as amended. Each removal pattern matches exactly the spans of its anchors in their
  order, in any letter case, with free text that holds no line feed between the anchors:
  "click", "link" and one of "login", "log in", "verify", "reset"; "enter" and
  "password"; "provide" and "credentials". After the removal step of the body rewrite
  no such span is left in the text, and when the body had one, the marker
  "[removed sensitive instructions]" stands in the text.
\<close>

theorem sensitive_spans_removed:
  "(re_search True (patterns_to_remove ! 0) s \<longleftrightarrow> has_line_span click_anchors s)
   \<and> (re_search True (patterns_to_remove ! 1) s \<longleftrightarrow> has_line_span enter_anchors s)
   \<and> (re_search True (patterns_to_remove ! 2) s \<longleftrightarrow> has_line_span provide_anchors s)
   \<and> \<not> has_line_span click_anchors (remove_all patterns_to_remove body)
   \<and> \<not> has_line_span enter_anchors (remove_all patterns_to_remove body)
   \<and> \<not> has_line_span provide_anchors (remove_all patterns_to_remove body)
   \<and> (has_line_span click_anchors body \<or> has_line_span enter_anchors body
        \<or> has_line_span provide_anchors body
        \<longrightarrow> str_in ''[removed sensitive instructions]'' (remove_all patterns_to_remove body))"
proof -
  let ?s1 = "re_sub True (span_rx click_anchors) marker body"
  let ?s2 = "re_sub True (span_rx enter_anchors) marker ?s1"
  let ?s3 = "re_sub True (span_rx provide_anchors) marker ?s2"
  note c = click_pattern and e = enter_pattern and p = provide_pattern
  have pc: "plain_anchors click_anchors" and pe: "plain_anchors enter_anchors"
    using c e by (simp_all add: span_pattern_def)
  have pats: "patterns_to_remove ! 0 = span_rx click_anchors"
    "patterns_to_remove ! 1 = span_rx enter_anchors"
    "patterns_to_remove ! 2 = span_rx provide_anchors"
    by (simp_all add: patterns_to_remove_spans del: span_rx.simps)
  have n1: "\<not> has_line_span click_anchors ?s3"
    by (intro pass_keeps_free [OF p pc] pass_keeps_free [OF e pc] pass_removes [OF c])
  have n2: "\<not> has_line_span enter_anchors ?s3"
    by (intro pass_keeps_free [OF p pe] pass_removes [OF e])
  have n3: "\<not> has_line_span provide_anchors ?s3"
    by (rule pass_removes [OF p])
  have m1: "str_in marker ?s3" if "has_line_span click_anchors body"
    by (intro pass_keeps_marker [OF p] pass_keeps_marker [OF e] pass_marks [OF c] that)
  have k1: "?s1 = body \<or> str_in marker ?s1" by (rule pass_changed [OF c])
  have m2: "str_in marker ?s3" if h: "has_line_span enter_anchors body"
  proof -
    from k1 have "str_in marker ?s2"
    proof
      assume "?s1 = body"
      then have "has_line_span enter_anchors ?s1" using h by simp
      then show ?thesis by (rule pass_marks [OF e])
    next
      assume "str_in marker ?s1"
      then show ?thesis by (rule pass_keeps_marker [OF e])
    qed
    then show ?thesis by (rule pass_keeps_marker [OF p])
  qed
  have k2: "?s2 = body \<or> str_in marker ?s2"
    using k1 pass_changed [OF e, of ?s1] pass_keeps_marker [OF e, of ?s1] by auto
  have m3: "str_in marker ?s3" if h: "has_line_span provide_anchors body"
  proof -
    from k2 show ?thesis
    proof
      assume "?s2 = body"
      then have "has_line_span provide_anchors ?s2" using h by simp
      then show ?thesis by (rule pass_marks [OF p])
    next
      assume "str_in marker ?s2"
      then show ?thesis by (rule pass_keeps_marker [OF p])
    qed
  qed
  have mk: "''[removed sensitive instructions]'' = marker" by (simp add: marker_def)
  show ?thesis
    unfolding pats search_span [OF c] search_span [OF e] search_span [OF p]
      remove_all_passes mk
    using n1 n2 n3 m1 m2 m3 by blast
qed

theorem sensitive_spans_removed_witness:
  "has_line_span enter_anchors ''Now ENTER your Password here''
   \<and> remove_all patterns_to_remove ''Now ENTER your Password here''
       = ''Now [removed sensitive instructions] here''
   \<and> \<not> has_line_span enter_anchors (remove_all patterns_to_remove ''Now ENTER your Password here'')
   \<and> str_in ''[removed sensitive instructions]''
         (remove_all patterns_to_remove ''Now ENTER your Password here'')"
proof -
  have a: "has_line_span enter_anchors ''Now ENTER your Password here''"
    by code_simp
  have b: "remove_all patterns_to_remove ''Now ENTER your Password here''
       = ''Now [removed sensitive instructions] here''"
    by code_simp
  note t = sensitive_spans_removed [of "''Now ENTER your Password here''" "''Now ENTER your Password here''"]
  show ?thesis using a b t by blast
qed

text \<open>
  C6 as stated, with any free text between the anchors, fails when a line feed stands
  between them: the body is left as it is.
\<close>

theorem span_across_lines_kept:
  "in_order click_anchors (''click'' @ [CHR 0x0A] @ ''link login'')
   \<and> remove_all patterns_to_remove (''click'' @ [CHR 0x0A] @ ''link login'')
       = ''click'' @ [CHR 0x0A] @ ''link login''
   \<and> snd (rewrite_to_safe ''Hi'' (''click'' @ [CHR 0x0A] @ ''link login''))
       = ''click'' @ [CHR 0x0A] @ ''link login'' @ [CHR 0x0A, CHR 0x0A] @ ''Thank you,''
         @ [CHR 0x0A] @ ''Customer Support Team''"
proof -
  have a: "in_order click_anchors (''click'' @ [CHR 0x0A] @ ''link login'')"
    by code_simp
  have b: "remove_all patterns_to_remove (''click'' @ [CHR 0x0A] @ ''link login'')
       = ''click'' @ [CHR 0x0A] @ ''link login''"
    by code_simp
  have c: "snd (rewrite_to_safe ''Hi'' (''click'' @ [CHR 0x0A] @ ''link login''))
       = ''click'' @ [CHR 0x0A] @ ''link login'' @ [CHR 0x0A, CHR 0x0A] @ ''Thank you,''
         @ [CHR 0x0A] @ ''Customer Support Team''"
    by code_simp
  show ?thesis by (intro conjI a b c)
qed

section \<open>Word diff\<close>




type_synonym block = "nat \<times> nat \<times> nat"








section \<open>The longest match lies in its rows\<close>

















section \<open>Matching blocks, opcodes and the rendered diff\<close>







text \<open>
  \<open>diff_words_html\<close>. A slice \<open>xs[i1:i2]\<close> of indices that are not negative; the parts
  of the output, each with the mark it gets; the markup of a part; the join.
\<close>

definition slice :: "'a list \<Rightarrow> nat \<Rightarrow> nat \<Rightarrow> 'a list" where
  "slice xs i1 i2 = take (i2 - i1) (drop i1 xs)"

datatype part = Plain string | Removed string | Added string








text \<open>The tokens of the two sides of a diff.\<close>

fun orig_side :: "part list \<Rightarrow> string list" where
  "orig_side [] = []"
| "orig_side (Plain w # ps) = w # orig_side ps"
| "orig_side (Removed w # ps) = w # orig_side ps"
| "orig_side (Added w # ps) = orig_side ps"

fun new_side :: "part list \<Rightarrow> string list" where
  "new_side [] = []"
| "new_side (Plain w # ps) = w # new_side ps"
| "new_side (Removed w # ps) = new_side ps"
| "new_side (Added w # ps) = w # new_side ps"

section \<open>Invariants of the word diff\<close>


definition same_run :: "'a list \<Rightarrow> 'a list \<Rightarrow> nat \<Rightarrow> nat \<Rightarrow> nat \<Rightarrow> bool" where
  "same_run a b i j m \<longleftrightarrow> (\<forall>t<m. a ! (i + t) = b ! (j + t))"

definition jl_good ::
  "'a list \<Rightarrow> 'a list \<Rightarrow> nat \<Rightarrow> nat \<Rightarrow> nat \<Rightarrow> nat \<Rightarrow> (nat \<rightharpoonup> nat) \<Rightarrow> bool" where
  "jl_good a b alo blo bhi e j2len \<longleftrightarrow>
     (\<forall>j m. j2len j = Some m \<longrightarrow>
        0 < m \<and> m + alo \<le> e \<and> m + blo \<le> j + 1 \<and> j < bhi \<and> same_run a b (e - m) (j + 1 - m) m)"







text \<open>A chain of blocks: in range, equal on both sides, and increasing on both sides.\<close>

fun chain :: "'a list \<Rightarrow> 'a list \<Rightarrow> nat \<Rightarrow> nat \<Rightarrow> block list \<Rightarrow> bool" where
  "chain a b i j [] = True"
| "chain a b i j ((ai, bj, k) # r) =
     (i \<le> ai \<and> j \<le> bj \<and> ai + k \<le> length a \<and> bj + k \<le> length b \<and> same_run a b ai bj k
      \<and> chain a b (ai + k) (bj + k) r)"



section \<open>Properties of the word diff\<close>

lemma same_run_0 [simp]: "same_run a b i j 0"
  by (simp add: same_run_def)



lemma jl_good_empty [simp]: "jl_good a b alo blo bhi e Map.empty"
  by (simp add: jl_good_def)



























lemma chain_bounds: "chain a b i j xs \<Longrightarrow> xs \<noteq> [] \<Longrightarrow> i \<le> length a \<and> j \<le> length b"
  by (cases xs) auto










lemma orig_side_map [simp]:
  "orig_side (map Plain ws) = ws" "orig_side (map Removed ws) = ws" "orig_side (map Added ws) = []"
  by (induction ws) simp_all

lemma new_side_map [simp]:
  "new_side (map Plain ws) = ws" "new_side (map Removed ws) = []" "new_side (map Added ws) = ws"
  by (induction ws) simp_all

lemma slice_empty [simp]: "slice xs i i = []"
  by (simp add: slice_def)








end
